theory Spec2Isabelle
  imports Main "HOL-Library.Multiset"
begin

unbundle bit_operations_syntax

chapter \<open>The program\<close>

section \<open>Go strings and the range clause\<close>

text \<open>
  A Go string is a sequence of bytes; \<open>len\<close> counts bytes and \<open>s[i:j]\<close> slices bytes.
  The model uses \<^typ>\<open>string\<close> (a list of 8-bit characters), \<^const>\<open>length\<close> for
  \<open>len\<close> and \<open>slice\<close> for a slice expression whose bounds are in range.

  \<open>for pos, r := range content\<close> does not visit every byte: it decodes one UTF-8
  code point at \<open>pos\<close>, yields its value as \<open>r\<close>, and advances \<open>pos\<close> by the width
  of the encoding (one byte, with \<open>r = 0xFFFD\<close>, where the bytes are not valid UTF-8).
  \<open>decoderune\<close> follows the runtime function of that name, \<open>range_next\<close> the
  compiled loop header, which handles bytes below \<open>0x80\<close> itself.
\<close>

definition slice :: "string \<Rightarrow> nat \<Rightarrow> nat \<Rightarrow> string" where
  "slice s i j = take (j - i) (drop i s)"

definition runeError :: int where
  "runeError = 0xFFFD"

definition byte :: "char \<Rightarrow> int" where
  "byte c = of_char c"

definition is_cont :: "char \<Rightarrow> bool" where
  "is_cont c = (0x80 \<le> byte c \<and> byte c \<le> 0xBF)"

fun decoderune :: "string \<Rightarrow> int \<times> nat" where
  "decoderune [] = (runeError, 1)"
| "decoderune (c0 # cs) =
    (if 0xC0 \<le> byte c0 \<and> byte c0 < 0xE0 then
       (case cs of
          c1 # _ \<Rightarrow>
            if is_cont c1 then
              (let r = push_bit 6 (byte c0 AND 0x1F) OR (byte c1 AND 0x3F)
               in if 0x7F < r then (r, 2) else (runeError, 1))
            else (runeError, 1)
        | _ \<Rightarrow> (runeError, 1))
     else if 0xE0 \<le> byte c0 \<and> byte c0 < 0xF0 then
       (case cs of
          c1 # c2 # _ \<Rightarrow>
            if is_cont c1 \<and> is_cont c2 then
              (let r = push_bit 12 (byte c0 AND 0x0F) OR push_bit 6 (byte c1 AND 0x3F)
                         OR (byte c2 AND 0x3F)
               in if 0x7FF < r \<and> \<not> (0xD800 \<le> r \<and> r \<le> 0xDFFF) then (r, 3)
                  else (runeError, 1))
            else (runeError, 1)
        | _ \<Rightarrow> (runeError, 1))
     else if 0xF0 \<le> byte c0 \<and> byte c0 < 0xF8 then
       (case cs of
          c1 # c2 # c3 # _ \<Rightarrow>
            if is_cont c1 \<and> is_cont c2 \<and> is_cont c3 then
              (let r = push_bit 18 (byte c0 AND 0x07) OR push_bit 12 (byte c1 AND 0x3F)
                         OR push_bit 6 (byte c2 AND 0x3F) OR (byte c3 AND 0x3F)
               in if 0xFFFF < r \<and> r \<le> 0x10FFFF then (r, 4) else (runeError, 1))
            else (runeError, 1)
        | _ \<Rightarrow> (runeError, 1))
     else (runeError, 1))"

fun range_next :: "string \<Rightarrow> int \<times> nat" where
  "range_next [] = (runeError, 1)"
| "range_next (c0 # cs) = (if byte c0 < 0x80 then (byte c0, 1) else decoderune (c0 # cs))"

section \<open>The block locator\<close>

text \<open>
  \<open>findTerraformBlock\<close> of \<open>main.go\<close>. The loop state is the byte offset \<open>pos\<close> of the
  next code point, \<open>startPos\<close> (\<open>-1\<close> until a start has been chosen) and \<open>openBr\<close>.
  Go's \<open>int\<close> has 64 bits; \<open>openBr\<close> moves by one per code point and \<open>pos\<close> is
  bounded by the length of a string in memory, so neither wraps, and both are
  unbounded integers here.
\<close>

function findTerraformBlock_loop :: "string \<Rightarrow> nat \<Rightarrow> int \<Rightarrow> int \<Rightarrow> int \<times> int" where
  "findTerraformBlock_loop content pos startPos openBr =
    (if length content \<le> pos then (- 1, - 1)
     else
       let r = fst (range_next (drop pos content));
           next_pos = pos + snd (range_next (drop pos content))
       in
         if startPos = - 1 \<and> pos + 9 < length content
            \<and> slice content pos (pos + 9) \<noteq> ''terraform''
         then findTerraformBlock_loop content next_pos startPos openBr
         else
           let startPos = (if startPos = - 1 then int pos else startPos) in
             if r = byte CHR ''{'' then
               (if openBr + 1 = 0 \<and> startPos \<noteq> - 1 then (startPos, int pos + 1)
                else findTerraformBlock_loop content next_pos startPos (openBr + 1))
             else if r = byte CHR ''}'' then
               (if openBr - 1 = 0 \<and> startPos \<noteq> - 1 then (startPos, int pos + 1)
                else findTerraformBlock_loop content next_pos startPos (openBr - 1))
             else findTerraformBlock_loop content next_pos startPos openBr)"
  by pat_completeness auto

lemma decoderune_width: "1 \<le> snd (decoderune s)"
  by (cases s) (auto simp: Let_def split: list.splits)

lemma range_next_width: "1 \<le> snd (range_next s)"
  using decoderune_width [of s] by (cases s) (simp_all del: decoderune.simps)

termination findTerraformBlock_loop
proof (relation "measure (\<lambda>(content, pos, startPos, openBr). length content - pos)")
  fix content :: string and pos :: nat and startPos openBr :: int and x xa xb
  assume a: "\<not> length content \<le> pos" and b: "xa = pos + snd (range_next (drop pos content))"
  have "1 \<le> snd (range_next (drop pos content))" by (rule range_next_width)
  with a b have lt: "length content - xa < length content - pos" by arith
  show "((content, xa, startPos, openBr), content, pos, startPos, openBr)
          \<in> measure (\<lambda>(content, pos, startPos, openBr). length content - pos)"
    using lt by simp
  show "((content, xa, xb, openBr + 1), content, pos, startPos, openBr)
          \<in> measure (\<lambda>(content, pos, startPos, openBr). length content - pos)"
    using lt by simp
  show "((content, xa, xb, openBr - 1), content, pos, startPos, openBr)
          \<in> measure (\<lambda>(content, pos, startPos, openBr). length content - pos)"
    using lt by simp
  show "((content, xa, xb, openBr), content, pos, startPos, openBr)
          \<in> measure (\<lambda>(content, pos, startPos, openBr). length content - pos)"
    using lt by simp
qed simp

definition findTerraformBlock :: "string \<Rightarrow> int \<times> int" where
  "findTerraformBlock content = findTerraformBlock_loop content 0 (- 1) 0"

section \<open>The backend rewriter\<close>

text \<open>
  \<open>fmt.Sprintf\<close> for a format whose only verb is \<open>%s\<close> and whose operands are
  strings: each \<open>%s\<close> is replaced by the next operand, and by \<open>%!s(MISSING)\<close> when
  the operands have run out. \<open>backendConfig\<close> has three verbs and is always given three
  operands.
\<close>

fun Sprintf :: "string \<Rightarrow> string list \<Rightarrow> string" where
  "Sprintf (c # d # fmt) args =
    (if c = CHR ''%'' \<and> d = CHR ''s'' then
       (case args of
          a # rest \<Rightarrow> a @ Sprintf fmt rest
        | [] \<Rightarrow> ''%!s(MISSING)'' @ Sprintf fmt [])
     else c # Sprintf (d # fmt) args)"
| "Sprintf fmt args = fmt"

definition LF :: char where
  "LF = CHR 0x0A"

definition backendConfig :: string where
  "backendConfig =
     ''terraform {'' @ [LF] @
     ''  backend \"remote\" {'' @ [LF] @
     ''    hostname     = \"%s\"'' @ [LF] @
     ''    organization = \"%s\"'' @ [LF] @
     [LF] @
     ''    workspaces {'' @ [LF] @
     ''      name = \"%s\"'' @ [LF] @
     ''    }'' @ [LF] @
     ''  }'' @ [LF] @
     ''}''"

text \<open>
  The lines of \<open>updateBackend\<close> between reading the file and writing it back: locate the
  block, fail when either offset is \<open>-1\<close>, otherwise splice the instantiated template
  between \<open>content[0:start]\<close> and \<open>content[end:]\<close>. It is a function of the text and of
  the three identifiers alone, so it is stated on them; \<open>updateBackend\<close> below passes
  \<open>m.hostname\<close>, \<open>m.organization\<close> and \<open>t.workspace\<close>.
\<close>

definition rewrite :: "string \<Rightarrow> string \<Rightarrow> string \<Rightarrow> string \<Rightarrow> string option" where
  "rewrite hostname organization workspace content =
    (let (start, end) = findTerraformBlock content in
       if start = - 1 \<or> end = - 1 then None
       else
         let tfBlock = Sprintf backendConfig [hostname, organization, workspace]
         in Some (slice content 0 (nat start) @ tfBlock
                    @ slice content (nat end) (length content)))"

section \<open>Tasks, metadata and errors\<close>

text \<open>
  \<open>Meta\<close>, \<open>Task\<close> and \<open>Migrator\<close> are the structs of \<open>main.go\<close>. The simple
  variant of the program has the same \<open>Task\<close> without the four Bitbucket fields and
  the same \<open>Migrator\<close> without \<open>hostname\<close>; there the fields are present and
  empty. \<open>state\<close> is the content of the \<open>aws.WriteAtBuffer\<close>. The handles \<open>client\<close>
  and \<open>downloader\<close> stand for remote services, which are the record \<open>services\<close>
  below. \<open>Serial\<close> is an \<open>int64\<close>; the only place that stores it checks the range.

  A Go \<open>error\<close> is a value. \<open>External\<close> is an error returned by a library or by a
  remote service; the other constructors are the four \<open>fmt.Errorf\<close> calls of
  \<open>downloadState\<close> and \<open>updateBackend\<close>, with their operands.

  Everything outside the program is a parameter. Each remote call takes the state of
  the outside world and returns its result with the new state: nothing is assumed about
  what the services do. \<open>json_parse\<close> is the syntax check and parser of
  \<open>encoding/json\<close>. \<open>readBitbucketFile\<close> and \<open>writeBitbucketFile\<close> are the two functions
  of \<open>bitbucket.go\<close> that \<open>updateBackend\<close> calls; they consist of HTTP requests.
\<close>

record Meta =
  Lineage :: string
  Serial :: int
  TerraformVersion :: string

record Task =
  bucket :: string
  key :: string
  project :: string
  repo :: string
  branch :: string
  configFile :: string
  workspace :: string
  state :: string
  meta :: Meta

record Migrator =
  hostname :: string
  organization :: string

datatype error =
    External string
  | IncompleteStateMetadata Meta
  | ReadConfigFailed string error
  | NoBlockFound string
  | WriteConfigFailed string error

datatype json =
    JNull
  | JBool bool
  | JNumber string
  | JString string
  | JArray "json list"
  | JObject "(string \<times> json) list"

record 'w services =
  s3_Download :: "string \<Rightarrow> string \<Rightarrow> 'w \<Rightarrow> (error + string) \<times> 'w"
  json_parse :: "string \<Rightarrow> error + json"
  Workspaces_Create :: "string \<Rightarrow> string \<Rightarrow> string \<Rightarrow> 'w \<Rightarrow> (error + string) \<times> 'w"
  md5_hex :: "string \<Rightarrow> string"
  base64 :: "string \<Rightarrow> string"
  StateVersions_Create ::
    "string \<Rightarrow> string \<Rightarrow> int \<Rightarrow> string \<Rightarrow> string \<Rightarrow> 'w \<Rightarrow> error option \<times> 'w"
  readBitbucketFile :: "Task \<Rightarrow> 'w \<Rightarrow> (error + string) \<times> 'w"
  writeBitbucketFile :: "Task \<Rightarrow> string \<Rightarrow> 'w \<Rightarrow> error option \<times> 'w"

section \<open>Decoding the metadata\<close>

text \<open>
  \<open>json.Unmarshal(data, t.meta)\<close>. The library first checks the syntax of the whole
  input and returns an error, leaving \<open>t.meta\<close> untouched, when it is not valid JSON.
  For an object it then takes the members in order: the struct field for a key is the
  field whose tag equals the key, otherwise the first field whose tag equals it under
  Unicode simple case folding (\<open>bytes.EqualFold\<close>); members without a field are
  skipped. \<open>foldName\<close> folds a name as the library does where it matters for ASCII
  tags, as all tags of the program are: an ASCII letter counts in either case, U+017F
  (long s, the bytes C5 BF) counts as \<open>s\<close> and U+212A (the Kelvin sign, the bytes
  E2 84 AA) as \<open>k\<close>; every other byte outside ASCII is kept, and so matches no ASCII
  tag. A string field takes a
  JSON string, an \<open>int64\<close> field a number literal that \<open>strconv.ParseInt\<close> accepts;
  \<open>null\<close> leaves the field as it is; any other value leaves the field as it is and is
  remembered as an error, the first such error being returned at the end. The tags of
  \<open>Lineage\<close> and \<open>Serial\<close> are \<open>lineage\<close> and \<open>serial\<close>; the tag of
  \<open>TerraformVersion\<close> is the parameter \<open>version_key\<close>, in which the two variants of
  the program differ.
\<close>

definition upper :: "char \<Rightarrow> char" where
  "upper c =
    (if byte CHR ''a'' \<le> byte c \<and> byte c \<le> byte CHR ''z'' then char_of (byte c - 32) else c)"

fun foldName :: "string \<Rightarrow> string" where
  "foldName [] = []"
| "foldName (c # cs) =
    (if c = CHR 0xC5 \<and> take 1 cs = [CHR 0xBF] then CHR ''S'' # foldName (drop 1 cs)
     else if c = CHR 0xE2 \<and> take 2 cs = [CHR 0x84, CHR 0xAA] then CHR ''K'' # foldName (drop 2 cs)
     else upper c # foldName cs)"

definition equalFold :: "string \<Rightarrow> string \<Rightarrow> bool" where
  "equalFold a b = (foldName a = foldName b)"

fun find_field :: "string list \<Rightarrow> string \<Rightarrow> string option" where
  "find_field names k =
    (if k \<in> set names then Some k
     else (case filter (\<lambda>n. equalFold n k) names of [] \<Rightarrow> None | n # _ \<Rightarrow> Some n))"

definition digit :: "char \<Rightarrow> bool" where
  "digit c = (byte CHR ''0'' \<le> byte c \<and> byte c \<le> byte CHR ''9'')"

fun decimal :: "int \<Rightarrow> string \<Rightarrow> int" where
  "decimal acc [] = acc"
| "decimal acc (c # cs) = decimal (10 * acc + (byte c - byte CHR ''0'')) cs"

definition ParseInt :: "string \<Rightarrow> int option" where
  "ParseInt s =
    (let neg = (s \<noteq> [] \<and> hd s = CHR ''-'');
         ds = (if s \<noteq> [] \<and> (hd s = CHR ''-'' \<or> hd s = CHR ''+'') then tl s else s)
     in if ds = [] \<or> \<not> list_all digit ds then None
        else if neg then (if decimal 0 ds \<le> 2 ^ 63 then Some (- decimal 0 ds) else None)
        else (if decimal 0 ds < 2 ^ 63 then Some (decimal 0 ds) else None))"

definition type_error :: "string \<Rightarrow> error" where
  "type_error field = External (''json: cannot unmarshal value into Go struct field Meta.'' @ field)"

definition store_string :: "string \<Rightarrow> json \<Rightarrow> string \<Rightarrow> error option \<times> string" where
  "store_string field v old =
    (case v of JString s \<Rightarrow> (None, s) | JNull \<Rightarrow> (None, old) | _ \<Rightarrow> (Some (type_error field), old))"

definition store_int64 :: "string \<Rightarrow> json \<Rightarrow> int \<Rightarrow> error option \<times> int" where
  "store_int64 field v old =
    (case v of
       JNumber lit \<Rightarrow> (case ParseInt lit of Some n \<Rightarrow> (None, n) | None \<Rightarrow> (Some (type_error field), old))
     | JNull \<Rightarrow> (None, old)
     | _ \<Rightarrow> (Some (type_error field), old))"

definition saveError :: "error option \<Rightarrow> error option \<Rightarrow> error option" where
  "saveError saved err = (case saved of None \<Rightarrow> err | Some e \<Rightarrow> Some e)"

fun decode_members ::
  "string \<Rightarrow> (string \<times> json) list \<Rightarrow> error option \<times> Meta \<Rightarrow> error option \<times> Meta" where
  "decode_members version_key [] (saved, m) = (saved, m)"
| "decode_members version_key ((k, v) # rest) (saved, m) =
    (case find_field [''lineage'', ''serial'', version_key] k of
       None \<Rightarrow> decode_members version_key rest (saved, m)
     | Some f \<Rightarrow>
         if f = ''lineage'' then
           (let (err, x) = store_string f v (Lineage m)
            in decode_members version_key rest (saveError saved err, m\<lparr>Lineage := x\<rparr>))
         else if f = ''serial'' then
           (let (err, x) = store_int64 f v (Serial m)
            in decode_members version_key rest (saveError saved err, m\<lparr>Serial := x\<rparr>))
         else
           (let (err, x) = store_string f v (TerraformVersion m)
            in decode_members version_key rest (saveError saved err, m\<lparr>TerraformVersion := x\<rparr>)))"

definition Unmarshal :: "string \<Rightarrow> (string \<Rightarrow> error + json) \<Rightarrow> string \<Rightarrow> Meta \<Rightarrow> error option \<times> Meta" where
  "Unmarshal version_key parse data m =
    (case parse data of
       Inl err \<Rightarrow> (Some err, m)
     | Inr (JObject members) \<Rightarrow> decode_members version_key members (None, m)
     | Inr JNull \<Rightarrow> (None, m)
     | Inr _ \<Rightarrow> (Some (External ''json: cannot unmarshal value into Go value of type main.Meta''), m))"

section \<open>The stages of one task\<close>

text \<open>
  The four methods of \<open>Migrator\<close> that a worker calls for a task. A task is a pointer
  in the source; a method that writes through it returns the new task. \<open>downloadState\<close>
  returns \<open>nil\<close> when \<open>json.Unmarshal\<close> returns an error, and checks the two required
  fields otherwise.
\<close>

definition downloadState ::
  "string \<Rightarrow> 'w services \<Rightarrow> Task \<Rightarrow> 'w \<Rightarrow> (error option \<times> Task) \<times> 'w" where
  "downloadState version_key sv t w =
    (case s3_Download sv (bucket t) (key t) w of
       (Inl err, w) \<Rightarrow> ((Some err, t), w)
     | (Inr data, w) \<Rightarrow>
         (let t = t\<lparr>state := data\<rparr> in
            case Unmarshal version_key (json_parse sv) (state t) (meta t) of
              (Some err, m) \<Rightarrow> ((None, t\<lparr>meta := m\<rparr>), w)
            | (None, m) \<Rightarrow>
                (let t = t\<lparr>meta := m\<rparr> in
                   if Lineage (meta t) = '''' \<or> TerraformVersion (meta t) = ''''
                   then ((Some (IncompleteStateMetadata (meta t)), t), w)
                   else ((None, t), w))))"

definition createWorkspace ::
  "Migrator \<Rightarrow> 'w services \<Rightarrow> Task \<Rightarrow> 'w \<Rightarrow> (error + string) \<times> 'w" where
  "createWorkspace m sv t w =
    Workspaces_Create sv (organization m) (workspace t) (TerraformVersion (meta t)) w"

definition uploadState ::
  "'w services \<Rightarrow> Task \<Rightarrow> string \<Rightarrow> 'w \<Rightarrow> error option \<times> 'w" where
  "uploadState sv t workspace_id w =
    StateVersions_Create sv workspace_id (Lineage (meta t)) (Serial (meta t))
      (md5_hex sv (state t)) (base64 sv (state t)) w"

definition updateBackend ::
  "Migrator \<Rightarrow> 'w services \<Rightarrow> Task \<Rightarrow> 'w \<Rightarrow> error option \<times> 'w" where
  "updateBackend m sv t w =
    (case readBitbucketFile sv t w of
       (Inl err, w) \<Rightarrow> (Some (ReadConfigFailed (configFile t) err), w)
     | (Inr content, w) \<Rightarrow>
         (case rewrite (hostname m) (organization m) (workspace t) content of
            None \<Rightarrow> (Some (NoBlockFound (configFile t)), w)
          | Some content \<Rightarrow>
              (case writeBitbucketFile sv t content w of
                 (Some err, w) \<Rightarrow> (Some (WriteConfigFailed (configFile t) err), w)
               | (None, w) \<Rightarrow> (None, w))))"

section \<open>The worker\<close>

text \<open>
  The two variants of the program: \<open>WithBackend\<close> is \<open>main.go\<close>, \<open>Simple\<close> is the
  variant without Bitbucket. They differ in the tag of \<open>TerraformVersion\<close>, in the
  number of fields of a record, and in the last stage.

  The function literal in \<open>worker\<close> calls the stages in order and returns at the first
  error. \<open>stage\<close> is its program counter, \<open>Return err\<close> its return value, and
  \<open>stage_step\<close> executes one stage. The worker then logs one of two lines, with the
  workspace of the task.
\<close>

datatype variant = WithBackend | Simple

definition version_key :: "variant \<Rightarrow> string" where
  "version_key v = (case v of WithBackend \<Rightarrow> ''terraform_version'' | Simple \<Rightarrow> ''terraform-version'')"

datatype stage =
    DownloadState
  | CreateWorkspace
  | UploadState string
  | UpdateBackend
  | Return "error option"

fun stage_step ::
  "variant \<Rightarrow> Migrator \<Rightarrow> 'w services \<Rightarrow> stage \<Rightarrow> Task \<Rightarrow> 'w \<Rightarrow> (stage \<times> Task) \<times> 'w" where
  "stage_step v m sv DownloadState task w =
    (case downloadState (version_key v) sv task w of
       ((Some err, task), w) \<Rightarrow> ((Return (Some err), task), w)
     | ((None, task), w) \<Rightarrow> ((CreateWorkspace, task), w))"
| "stage_step v m sv CreateWorkspace task w =
    (case createWorkspace m sv task w of
       (Inl err, w) \<Rightarrow> ((Return (Some err), task), w)
     | (Inr ws, w) \<Rightarrow> ((UploadState ws, task), w))"
| "stage_step v m sv (UploadState ws) task w =
    (case uploadState sv task ws w of
       (Some err, w) \<Rightarrow> ((Return (Some err), task), w)
     | (None, w) \<Rightarrow>
         (case v of
            WithBackend \<Rightarrow> ((UpdateBackend, task), w)
          | Simple \<Rightarrow> ((Return None, task), w)))"
| "stage_step v m sv UpdateBackend task w =
    (case updateBackend m sv task w of (err, w) \<Rightarrow> ((Return err, task), w))"
| "stage_step v m sv (Return err) task w = ((Return err, task), w)"

datatype log_line =
    Error_migrating string error
  | Succesfully_migrated string

definition log_line_of :: "Task \<Rightarrow> error option \<Rightarrow> log_line" where
  "log_line_of task err =
    (case err of
       Some e \<Rightarrow> Error_migrating (workspace task) e
     | None \<Rightarrow> Succesfully_migrated (workspace task))"

section \<open>The pipeline\<close>

text \<open>
  \<open>main\<close> starts \<open>workers\<close> goroutines on one channel of capacity 100, then adds one
  to the wait group and sends, task by task, and waits for the wait group. A state of
  the pipeline holds the program counter of \<open>main\<close>, the counter of the wait group, the
  content of the channel, whether the channel is closed, the state of each worker, the
  tasks (the channel carries indices into them), the outside world, and the lines logged
  so far, each with the worker and the task it belongs to.

  A worker is \<open>Idle\<close> when it is at the head of \<open>for task := range queue\<close>,
  \<open>Running i st\<close> when it is inside the function literal for task \<open>i\<close>, about to do
  \<open>st\<close>, \<open>Finishing i\<close> between the log line and \<open>wg.Done()\<close>, and \<open>Exited\<close> after the
  loop. A \<open>range\<close> over a channel ends only when the channel is closed and empty, and
  no statement of the program closes the channel.

  \<open>step\<close> is one action of one goroutine; the goroutines interleave in any order.
  Sending blocks while the channel is full, receiving while it is empty, \<open>wg.Wait()\<close>
  while the counter is not zero.
\<close>

definition workers :: nat where
  "workers = 10"

definition queue_capacity :: nat where
  "queue_capacity = 100"

datatype wstate =
    Idle
  | Running nat stage
  | Finishing nat
  | Exited

datatype main_pc =
    Adding nat
  | Sending nat
  | Waiting
  | Finished

record 'w pstate =
  pc :: main_pc
  wg :: int
  queue :: "nat list"
  closed :: bool
  wstates :: "wstate list"
  task_heap :: "Task list"
  world :: 'w
  logged :: "(nat \<times> nat \<times> log_line) list"

definition init :: "Task list \<Rightarrow> 'w \<Rightarrow> 'w pstate" where
  "init ts w =
    \<lparr>pc = Adding 0, wg = 0, queue = [], closed = False, wstates = replicate workers Idle,
     task_heap = ts, world = w, logged = []\<rparr>"

inductive step :: "variant \<Rightarrow> Migrator \<Rightarrow> 'w services \<Rightarrow> 'w pstate \<Rightarrow> 'w pstate \<Rightarrow> bool"
  for v :: variant and m :: Migrator and sv :: "'w services" where
  main_add:
    "pc s = Adding i \<Longrightarrow> i < length (task_heap s) \<Longrightarrow>
     step v m sv s (s\<lparr>wg := wg s + 1, pc := Sending i\<rparr>)"
| main_send:
    "pc s = Sending i \<Longrightarrow> length (queue s) < queue_capacity \<Longrightarrow>
     step v m sv s (s\<lparr>queue := queue s @ [i], pc := Adding (i + 1)\<rparr>)"
| main_wait:
    "pc s = Adding i \<Longrightarrow> i = length (task_heap s) \<Longrightarrow>
     step v m sv s (s\<lparr>pc := Waiting\<rparr>)"
| main_finish:
    "pc s = Waiting \<Longrightarrow> wg s = 0 \<Longrightarrow>
     step v m sv s (s\<lparr>pc := Finished\<rparr>)"
| worker_receive:
    "k < length (wstates s) \<Longrightarrow> wstates s ! k = Idle \<Longrightarrow> queue s = i # rest \<Longrightarrow>
     step v m sv s (s\<lparr>queue := rest, wstates := (wstates s)[k := Running i DownloadState]\<rparr>)"
| worker_exit:
    "k < length (wstates s) \<Longrightarrow> wstates s ! k = Idle \<Longrightarrow> queue s = [] \<Longrightarrow> closed s \<Longrightarrow>
     step v m sv s (s\<lparr>wstates := (wstates s)[k := Exited]\<rparr>)"
| worker_stage:
    "k < length (wstates s) \<Longrightarrow> wstates s ! k = Running i st \<Longrightarrow> \<forall>err. st \<noteq> Return err \<Longrightarrow>
     i < length (task_heap s) \<Longrightarrow>
     stage_step v m sv st (task_heap s ! i) (world s) = ((st', task'), w') \<Longrightarrow>
     step v m sv s
       (s\<lparr>wstates := (wstates s)[k := Running i st'], task_heap := (task_heap s)[i := task'],
          world := w'\<rparr>)"
| worker_log:
    "k < length (wstates s) \<Longrightarrow> wstates s ! k = Running i (Return err) \<Longrightarrow>
     i < length (task_heap s) \<Longrightarrow>
     step v m sv s
       (s\<lparr>logged := logged s @ [(k, i, log_line_of (task_heap s ! i) err)],
          wstates := (wstates s)[k := Finishing i]\<rparr>)"
| worker_done:
    "k < length (wstates s) \<Longrightarrow> wstates s ! k = Finishing i \<Longrightarrow>
     step v m sv s (s\<lparr>wg := wg s - 1, wstates := (wstates s)[k := Idle]\<rparr>)"

inductive reachable ::
  "variant \<Rightarrow> Migrator \<Rightarrow> 'w services \<Rightarrow> Task list \<Rightarrow> 'w \<Rightarrow> 'w pstate \<Rightarrow> bool"
  for v :: variant and m :: Migrator and sv :: "'w services" and ts :: "Task list" and w :: 'w where
  reach_init: "reachable v m sv ts w (init ts w)"
| reach_step: "reachable v m sv ts w s \<Longrightarrow> step v m sv s s' \<Longrightarrow> reachable v m sv ts w s'"

section \<open>The orchestrator\<close>

text \<open>
  What \<open>main\<close> does before it starts the workers. \<open>startup\<close> holds what it reads
  from its surroundings: the two flags, the results of opening the input file, of
  creating the AWS session and the TFE client, the environment variables, the host name
  of \<open>TFE_ADDRESS\<close> as \<open>url.Parse\<close> gives it, and the successive results of
  \<open>r.Read()\<close> up to \<open>io.EOF\<close>. Every failure is \<open>os.Exit(1)\<close>; \<open>Inl\<close> carries the
  exit status.

  \<open>main_run\<close> relates a start to the outcomes \<open>main\<close> can have: the exit status, the
  lines logged, and the outside world at the end. \<open>main\<close> returns, with status 0, when
  \<open>wg.Wait()\<close> has returned.
\<close>

record startup =
  flag_input :: string
  flag_organization :: string
  open_input :: "error option"
  new_session :: "error option"
  BITBUCKET_TOKEN :: string
  new_client :: "error option"
  TFE_ADDRESS :: string
  url_hostname :: "error + string"
  records :: "(error + string list) list"

definition bucketField :: nat where "bucketField = 0"

definition keyField :: nat where "keyField = 1"

definition projectField :: nat where "projectField = 2"

definition repoField :: nat where "repoField = 3"

definition branchField :: nat where "branchField = 4"

definition configFileField :: nat where "configFileField = 5"

definition workspaceField :: "variant \<Rightarrow> nat" where
  "workspaceField v = (case v of WithBackend \<Rightarrow> 6 | Simple \<Rightarrow> 2)"

definition field_count :: "variant \<Rightarrow> nat" where
  "field_count v = (case v of WithBackend \<Rightarrow> 7 | Simple \<Rightarrow> 3)"

definition new_task :: "variant \<Rightarrow> string list \<Rightarrow> Task" where
  "new_task v record =
    (case v of
       WithBackend \<Rightarrow>
         \<lparr>bucket = record ! bucketField, key = record ! keyField,
          project = record ! projectField, repo = record ! repoField,
          branch = record ! branchField, configFile = record ! configFileField,
          workspace = record ! workspaceField v, state = [],
          meta = \<lparr>Lineage = [], Serial = 0, TerraformVersion = []\<rparr>\<rparr>
     | Simple \<Rightarrow>
         \<lparr>bucket = record ! bucketField, key = record ! keyField,
          project = [], repo = [], branch = [], configFile = [],
          workspace = record ! workspaceField v, state = [],
          meta = \<lparr>Lineage = [], Serial = 0, TerraformVersion = []\<rparr>\<rparr>)"

fun read_tasks :: "variant \<Rightarrow> (error + string list) list \<Rightarrow> Task list \<Rightarrow> nat + Task list" where
  "read_tasks v [] tasks = Inr tasks"
| "read_tasks v (Inl err # rest) tasks = Inl 1"
| "read_tasks v (Inr record # rest) tasks =
    (if length record \<noteq> field_count v then Inl 1
     else read_tasks v rest (tasks @ [new_task v record]))"

definition main_prelude :: "variant \<Rightarrow> startup \<Rightarrow> nat + Migrator \<times> Task list" where
  "main_prelude v su =
    (if flag_input su = [] \<or> flag_organization su = [] then Inl 1
     else if open_input su \<noteq> None then Inl 1
     else if new_session su \<noteq> None then Inl 1
     else if v = WithBackend \<and> BITBUCKET_TOKEN su = [] then Inl 1
     else if new_client su \<noteq> None then Inl 1
     else if v = WithBackend \<and> TFE_ADDRESS su \<noteq> [] \<and> isl (url_hostname su) then Inl 1
     else
       let m = \<lparr>hostname =
                  (if v = WithBackend
                   then (if TFE_ADDRESS su \<noteq> [] then projr (url_hostname su)
                         else ''app.terraform.io'')
                   else []),
                organization = flag_organization su\<rparr>
       in case read_tasks v (records su) [] of
            Inl code \<Rightarrow> Inl code
          | Inr tasks \<Rightarrow> Inr (m, tasks))"

inductive main_run ::
  "variant \<Rightarrow> 'w services \<Rightarrow> startup \<Rightarrow> 'w
     \<Rightarrow> nat \<times> (nat \<times> nat \<times> log_line) list \<times> 'w \<Rightarrow> bool"
  for v :: variant and sv :: "'w services" and su :: startup and w :: 'w where
  exit_early:
    "main_prelude v su = Inl code \<Longrightarrow> main_run v sv su w (code, [], w)"
| completed:
    "main_prelude v su = Inr (m, ts) \<Longrightarrow> reachable v m sv ts w s \<Longrightarrow> pc s = Finished \<Longrightarrow>
     main_run v sv su w (0, logged s, world s)"

chapter \<open>Notions for stating the properties\<close>

section \<open>Bytes, braces and occurrences of the keyword\<close>

text \<open>
  \<open>close_pos\<close> scans bytes, not code points: from offset \<open>pos\<close> and depth \<open>d\<close> it
  returns the offset just after the first brace that makes the depth zero. \<open>occurs_at\<close>
  says that the keyword occurs at an offset, \<open>occurrences\<close> lists these offsets.
  \<open>depth\<close> is the number of opening braces minus the number of closing braces, and
  \<open>balanced\<close> says that the braces of a text match.
\<close>

definition ascii :: "char \<Rightarrow> bool" where
  "ascii c = (byte c < 0x80)"

definition brace :: "char \<Rightarrow> bool" where
  "brace c = (c = CHR ''{'' \<or> c = CHR ''}'')"

fun close_pos :: "string \<Rightarrow> nat \<Rightarrow> int \<Rightarrow> nat option" where
  "close_pos [] pos d = None"
| "close_pos (c # cs) pos d =
    (if c = CHR ''{'' then (if d + 1 = 0 then Some (pos + 1) else close_pos cs (pos + 1) (d + 1))
     else if c = CHR ''}'' then (if d - 1 = 0 then Some (pos + 1) else close_pos cs (pos + 1) (d - 1))
     else close_pos cs (pos + 1) d)"

definition occurs_at :: "string \<Rightarrow> nat \<Rightarrow> bool" where
  "occurs_at content p = (slice content p (p + 9) = ''terraform'')"

definition occurrences :: "string \<Rightarrow> nat list" where
  "occurrences content = filter (occurs_at content) [0..<length content]"

fun depth :: "string \<Rightarrow> int" where
  "depth [] = 0"
| "depth (c # cs) =
    (if c = CHR ''{'' then 1 else if c = CHR ''}'' then - 1 else 0) + depth cs"

fun balanced_from :: "nat \<Rightarrow> string \<Rightarrow> bool" where
  "balanced_from n [] = (n = 0)"
| "balanced_from n (c # cs) =
    (if c = CHR ''{'' then balanced_from (Suc n) cs
     else if c = CHR ''}'' then 0 < n \<and> balanced_from (n - 1) cs
     else balanced_from n cs)"

definition balanced :: "string \<Rightarrow> bool" where
  "balanced s = balanced_from 0 s"

section \<open>The states of the pipeline\<close>

text \<open>
  \<open>inv\<close> is the invariant of the pipeline for \<open>N\<close> tasks: every task sent so far is in
  the channel, or with a worker that has not logged yet, or in the log, and in one place
  only; the counter of the wait group is the number of tasks in the channel or with a
  worker, plus one between \<open>wg.Add(1)\<close> and the send; the channel is open and no worker
  has left its loop. \<open>inv_log\<close> says that every logged line carries the workspace of its
  task. \<open>remaining\<close> bounds the number of steps a run can still make.
  \<open>stage_error\<close> is the error that the stage at hand returns, if it returns one, and
  \<open>rejected\<close> says that \<open>main\<close> exits on a result of \<open>r.Read()\<close>.

  \<open>stages_from t0 st t\<close> says how the function literal, called with the task \<open>t0\<close>,
  comes to be at \<open>st\<close> with the task at \<open>t\<close>: it starts at the download, and every
  stage it has left was run by \<open>stage_step\<close> on the task as the stage before left it, in
  some world, since the other workers act in between. \<open>task_outcome t0 line\<close> says that
  \<open>line\<close> is the line logged for a return value that the function literal reaches in
  this way. \<open>inv_stages\<close> is the invariant that ties the pipeline to the stages of its
  tasks: a task that no worker has received is as \<open>main\<close> built it, a worker inside a task
  is where the stages of that task lead, and every logged line is the outcome of its task.
\<close>

definition unlogged :: "wstate \<Rightarrow> nat multiset" where
  "unlogged x = (case x of Running i st \<Rightarrow> {#i#} | _ \<Rightarrow> {#})"

definition busy :: "wstate \<Rightarrow> nat" where
  "busy x = (case x of Running i st \<Rightarrow> 1 | Finishing i \<Rightarrow> 1 | _ \<Rightarrow> 0)"

definition sent :: "nat \<Rightarrow> main_pc \<Rightarrow> nat" where
  "sent N p = (case p of Adding i \<Rightarrow> i | Sending i \<Rightarrow> i | Waiting \<Rightarrow> N | Finished \<Rightarrow> N)"

definition sending :: "main_pc \<Rightarrow> nat" where
  "sending p = (case p of Sending i \<Rightarrow> 1 | _ \<Rightarrow> 0)"

definition pc_ok :: "nat \<Rightarrow> main_pc \<Rightarrow> bool" where
  "pc_ok N p = (case p of Adding i \<Rightarrow> i \<le> N | Sending i \<Rightarrow> i < N | _ \<Rightarrow> True)"

definition task_of :: "nat \<times> nat \<times> log_line \<Rightarrow> nat" where
  "task_of e = fst (snd e)"

definition line_workspace :: "log_line \<Rightarrow> string" where
  "line_workspace l = (case l of Error_migrating ws err \<Rightarrow> ws | Succesfully_migrated ws \<Rightarrow> ws)"

definition inv :: "nat \<Rightarrow> 'w pstate \<Rightarrow> bool" where
  "inv N s \<longleftrightarrow>
     length (task_heap s) = N \<and> length (wstates s) = workers \<and> \<not> closed s \<and>
     Exited \<notin> set (wstates s) \<and> pc_ok N (pc s) \<and>
     mset (queue s) + sum_list (map unlogged (wstates s)) + mset (map task_of (logged s))
       = mset [0..<sent N (pc s)] \<and>
     wg s = int (length (queue s) + sum_list (map busy (wstates s)) + sending (pc s)) \<and>
     (pc s = Finished \<longrightarrow> wg s = 0)"

definition inv_log :: "Task list \<Rightarrow> 'w pstate \<Rightarrow> bool" where
  "inv_log ts s \<longleftrightarrow>
     map workspace (task_heap s) = map workspace ts \<and>
     (\<forall>e \<in> set (logged s).
        fst e < workers \<and> task_of e < length ts \<and>
        line_workspace (snd (snd e)) = workspace (ts ! task_of e))"

definition stage_rank :: "stage \<Rightarrow> nat" where
  "stage_rank st =
    (case st of DownloadState \<Rightarrow> 5 | CreateWorkspace \<Rightarrow> 4 | UploadState ws \<Rightarrow> 3
     | UpdateBackend \<Rightarrow> 2 | Return err \<Rightarrow> 1)"

definition wrank :: "wstate \<Rightarrow> nat" where
  "wrank x =
    (case x of Idle \<Rightarrow> 1 | Running i st \<Rightarrow> 2 + stage_rank st | Finishing i \<Rightarrow> 2 | Exited \<Rightarrow> 0)"

definition mrank :: "nat \<Rightarrow> main_pc \<Rightarrow> nat" where
  "mrank N p =
    (case p of Adding i \<Rightarrow> 9 * (N - i) + 2 | Sending i \<Rightarrow> 9 * (N - i) + 1 | Waiting \<Rightarrow> 1
     | Finished \<Rightarrow> 0)"

definition remaining :: "nat \<Rightarrow> 'w pstate \<Rightarrow> nat" where
  "remaining N s = mrank N (pc s) + 7 * length (queue s) + sum_list (map wrank (wstates s))"


inductive stages_from ::
  "variant \<Rightarrow> Migrator \<Rightarrow> 'w services \<Rightarrow> Task \<Rightarrow> stage \<Rightarrow> Task \<Rightarrow> bool"
  for v :: variant and m :: Migrator and sv :: "'w services" and t0 :: Task where
  called: "stages_from v m sv t0 DownloadState t0"
| ran: "stages_from v m sv t0 st t \<Longrightarrow> \<forall>err. st \<noteq> Return err \<Longrightarrow>
        stage_step v m sv st t w = ((st', t'), w') \<Longrightarrow> stages_from v m sv t0 st' t'"



definition rejected :: "variant \<Rightarrow> error + string list \<Rightarrow> bool" where
  "rejected v r = (case r of Inl err \<Rightarrow> True | Inr record \<Rightarrow> length record \<noteq> field_count v)"

section \<open>Concrete inputs\<close>

text \<open>
  \<open>scenario_text\<close> is the text of the concrete scenario; \<open>no_block_text\<close> is a
  configuration file, as \<open>readBitbucketFile\<close> returns it, without any \<open>terraform\<close>
  block. In \<open>nested_keyword_text\<close> the keyword occurs in a string inside a \<open>provider\<close>
  block, before the \<open>terraform\<close> block; in \<open>state_key_text\<close> it occurs again inside the
  \<open>terraform\<close> block, in the name of the state file. \<open>sample_services\<close> are services that answer every call with success and
  append the name of the call to the world, which is the list of calls made; the object
  in the bucket is a parameter, and \<open>failing_services\<close> have no object. \<open>run_state\<close>
  gives the states of a run with one task in which only worker 0 acts.

  \<open>pair_run\<close> is a run of two tasks, again with worker 0 alone: \<open>main\<close> queues
  \<open>lost_task\<close> and \<open>sample_task\<close> and waits; the worker receives \<open>lost_task\<close>, whose
  object \<open>mixed_services\<close> do not have, logs the error, then receives \<open>sample_task\<close>,
  runs its four stages, which leave it as \<open>migrated_task\<close>, and logs the success; then
  \<open>main\<close> returns from \<open>wg.Wait()\<close>.
\<close>

definition scenario_text :: string where
  "scenario_text =
     ''foo'' @ [LF] @
     ''terraform {'' @ [LF] @
     '' backend \"local\" {}'' @ [LF] @
     ''}'' @ [LF] @
     ''bar''"

definition no_block_text :: string where
  "no_block_text = ''variable \"region\" {}'' @ [LF]"

definition nested_keyword_text :: string where
  "nested_keyword_text =
     ''provider \"aws\" {'' @ [LF] @
     ''  profile = \"terraform\"'' @ [LF] @
     ''}'' @ [LF] @
     ''terraform {'' @ [LF] @
     ''}'' @ [LF]"

definition state_key_text :: string where
  "state_key_text =
     ''# main'' @ [LF] @
     ''terraform {'' @ [LF] @
     ''  backend \"s3\" {'' @ [LF] @
     ''    key = \"terraform.tfstate\"'' @ [LF] @
     ''  }'' @ [LF] @
     ''}'' @ [LF]"

definition sample_state :: string where
  "sample_state = ''{\"lineage\":\"L\",\"serial\":1,\"terraform_version\":\"0.11.8\"}''"

definition sample_parse :: "string \<Rightarrow> error + json" where
  "sample_parse data =
    (if data = sample_state then
       Inr (JObject [(''lineage'', JString ''L''), (''serial'', JNumber ''1''),
                     (''terraform_version'', JString ''0.11.8'')])
     else Inl (External ''invalid character''))"

definition sample_services :: "error + string \<Rightarrow> string list services" where
  "sample_services object =
    \<lparr>s3_Download = (\<lambda>b k w. (object, w @ [''Download''])),
     json_parse = sample_parse,
     Workspaces_Create = (\<lambda>org name ver w. (Inr ''ws-1'', w @ [''Workspaces.Create''])),
     md5_hex = (\<lambda>data. ''md5''),
     base64 = (\<lambda>data. data),
     StateVersions_Create = (\<lambda>ws l s md st w. (None, w @ [''StateVersions.Create''])),
     readBitbucketFile = (\<lambda>t w. (Inr scenario_text, w @ [''readBitbucketFile''])),
     writeBitbucketFile = (\<lambda>t c w. (None, w @ [''writeBitbucketFile'']))\<rparr>"

definition sample_task :: Task where
  "sample_task =
    \<lparr>bucket = ''b'', key = ''k'', project = ''p'', repo = ''r'', branch = ''master'',
     configFile = ''main.tf'', workspace = ''ws'', state = [],
     meta = \<lparr>Lineage = [], Serial = 0, TerraformVersion = []\<rparr>\<rparr>"

definition sample_migrator :: Migrator where
  "sample_migrator = \<lparr>hostname = ''app.terraform.io'', organization = ''org''\<rparr>"

definition sample_startup :: "(error + string list) list \<Rightarrow> startup" where
  "sample_startup rs =
    \<lparr>flag_input = ''input.csv'', flag_organization = ''org'', open_input = None,
     new_session = None, BITBUCKET_TOKEN = ''token'', new_client = None, TFE_ADDRESS = [],
     url_hostname = Inr [], records = rs\<rparr>"

definition failing_services :: "string list services" where
  "failing_services = sample_services (Inl (External ''NoSuchKey''))"

definition run_state ::
  "main_pc \<Rightarrow> int \<Rightarrow> nat list \<Rightarrow> wstate \<Rightarrow> string list \<Rightarrow> (nat \<times> nat \<times> log_line) list
     \<Rightarrow> string list pstate" where
  "run_state p g q x w l =
    \<lparr>pc = p, wg = g, queue = q, closed = False, wstates = (replicate workers Idle)[0 := x],
     task_heap = [sample_task], world = w, logged = l\<rparr>"

definition failed_run_end :: "string list pstate" where
  "failed_run_end =
    run_state Finished 0 [] Idle [''Download'']
      [(0, 0, Error_migrating ''ws'' (External ''NoSuchKey''))]"









chapter \<open>Lemmas\<close>

section \<open>Decoding one code point\<close>

lemma byte_inj: "byte a = byte b \<longleftrightarrow> a = b"
  by (simp add: byte_def)

lemma ascii_brace: "ascii CHR ''{''" "ascii CHR ''}''"
  by (simp_all add: ascii_def byte_def)

lemma is_cont_not_ascii: "is_cont c \<Longrightarrow> \<not> ascii c"
  by (simp add: is_cont_def ascii_def)

lemma decoderune_rune: "fst (decoderune s) = runeError \<or> 0x7F < fst (decoderune s)"
  by (cases s) (auto simp: Let_def split: list.splits)

lemma decoderune_bytes:
  "snd (decoderune (c # cs)) \<le> Suc (length cs) \<and>
   (\<forall>x \<in> set (take (snd (decoderune (c # cs)) - 1) cs). \<not> ascii x)"
  by (auto simp: Let_def is_cont_not_ascii split: list.splits)

lemma range_next_ascii: "ascii c \<Longrightarrow> range_next (c # cs) = (byte c, 1)"
  by (simp add: ascii_def)

lemma range_next_not_ascii:
  assumes "\<not> ascii c"
  shows "fst (range_next (c # cs)) \<noteq> byte CHR ''{''"
    and "fst (range_next (c # cs)) \<noteq> byte CHR ''}''"
    and "snd (range_next (c # cs)) \<le> Suc (length cs)"
    and "\<forall>x \<in> set (take (snd (range_next (c # cs))) (c # cs)). \<not> ascii x"
proof -
  have rn: "range_next (c # cs) = decoderune (c # cs)"
    using assms by (simp add: ascii_def)
  have "fst (decoderune (c # cs)) = runeError \<or> 0x7F < fst (decoderune (c # cs))"
    by (rule decoderune_rune)
  then show "fst (range_next (c # cs)) \<noteq> byte CHR ''{''"
    and "fst (range_next (c # cs)) \<noteq> byte CHR ''}''"
    unfolding rn by (auto simp: runeError_def byte_def)
  show "snd (range_next (c # cs)) \<le> Suc (length cs)"
    unfolding rn using decoderune_bytes [of c cs] by blast
  have w: "1 \<le> snd (decoderune (c # cs))" by (rule decoderune_width)
  then obtain k where k: "snd (decoderune (c # cs)) = Suc k"
    by (cases "snd (decoderune (c # cs))") auto
  show "\<forall>x \<in> set (take (snd (range_next (c # cs))) (c # cs)). \<not> ascii x"
    unfolding rn using decoderune_bytes [of c cs] assms k by (auto simp del: decoderune.simps)
qed

section \<open>The locator\<close>

declare findTerraformBlock_loop.simps [simp del]

declare decoderune.simps [simp del]

declare range_next.simps [simp del]

lemma range_next_at_ascii:
  assumes "pos < length content" and "ascii (content ! pos)"
  shows "range_next (drop pos content) = (byte (content ! pos), 1)"
proof -
  have "drop pos content = content ! pos # drop (Suc pos) content"
    using assms(1) by (simp add: Cons_nth_drop_Suc)
  then show ?thesis using assms(2) by (simp add: range_next_ascii)
qed

lemma not_ascii_not_brace: "\<not> ascii c \<Longrightarrow> \<not> brace c"
  using ascii_brace by (auto simp: brace_def)

lemma close_pos_skip:
  "\<forall>c \<in> set xs. \<not> brace c \<Longrightarrow> close_pos (xs @ ys) pos d = close_pos ys (pos + length xs) d"
  by (induction xs arbitrary: pos) (auto simp: brace_def)

lemma loop_end: "length content \<le> pos \<Longrightarrow> findTerraformBlock_loop content pos sp d = (- 1, - 1)"
  by (subst findTerraformBlock_loop.simps) simp

lemma loop_started_ascii:
  assumes "pos < length content" and "sp \<noteq> - 1" and "ascii (content ! pos)"
  shows "findTerraformBlock_loop content pos sp d =
    (if content ! pos = CHR ''{'' then
       (if d + 1 = 0 then (sp, int pos + 1)
        else findTerraformBlock_loop content (Suc pos) sp (d + 1))
     else if content ! pos = CHR ''}'' then
       (if d - 1 = 0 then (sp, int pos + 1)
        else findTerraformBlock_loop content (Suc pos) sp (d - 1))
     else findTerraformBlock_loop content (Suc pos) sp d)"
proof -
  have rn: "range_next (drop pos content) = (byte (content ! pos), 1)"
    using assms(1,3) by (rule range_next_at_ascii)
  show ?thesis
    by (subst findTerraformBlock_loop.simps) (use assms rn in \<open>simp add: Let_def byte_inj\<close>)
qed

lemma loop_started_not_ascii:
  assumes "pos < length content" and "sp \<noteq> - 1" and "\<not> ascii (content ! pos)"
  shows "findTerraformBlock_loop content pos sp d =
    findTerraformBlock_loop content (pos + snd (range_next (drop pos content))) sp d"
proof -
  have dr: "drop pos content = content ! pos # drop (Suc pos) content"
    using assms(1) by (simp add: Cons_nth_drop_Suc)
  have "fst (range_next (drop pos content)) \<noteq> byte CHR ''{''"
    and "fst (range_next (drop pos content)) \<noteq> byte CHR ''}''"
    unfolding dr using assms(3) by (rule range_next_not_ascii)+
  then show ?thesis
    by (subst findTerraformBlock_loop.simps) (use assms in \<open>simp add: Let_def\<close>)
qed

lemma rune_span:
  assumes "pos < length content" and "\<not> ascii (content ! pos)"
  shows "pos + snd (range_next (drop pos content)) \<le> length content"
    and "\<forall>q. pos \<le> q \<and> q < pos + snd (range_next (drop pos content)) \<longrightarrow> \<not> ascii (content ! q)"
proof -
  let ?w = "snd (range_next (drop pos content))"
  have dr: "drop pos content = content ! pos # drop (Suc pos) content"
    using assms(1) by (simp add: Cons_nth_drop_Suc)
  have "?w \<le> Suc (length (drop (Suc pos) content))"
    unfolding dr using assms(2) by (rule range_next_not_ascii)
  then show le: "pos + ?w \<le> length content" using assms(1) by simp
  have all: "\<forall>x \<in> set (take ?w (drop pos content)). \<not> ascii x"
    using range_next_not_ascii(4) [OF assms(2), of "drop (Suc pos) content"] unfolding dr .
  show "\<forall>q. pos \<le> q \<and> q < pos + ?w \<longrightarrow> \<not> ascii (content ! q)"
  proof (intro allI impI)
    fix q assume q: "pos \<le> q \<and> q < pos + ?w"
    then have "q - pos < length (take ?w (drop pos content))" using le by auto
    then have "take ?w (drop pos content) ! (q - pos) \<in> set (take ?w (drop pos content))"
      by (rule nth_mem)
    moreover have "take ?w (drop pos content) ! (q - pos) = content ! q"
    proof -
      have a: "q - pos < ?w" and b: "pos + (q - pos) = q" using q by auto
      have c: "pos \<le> length content" using le by simp
      have "take ?w (drop pos content) ! (q - pos) = drop pos content ! (q - pos)"
        using a by simp
      also have "\<dots> = content ! (pos + (q - pos))" using c by (rule nth_drop)
      finally show ?thesis unfolding b .
    qed
    ultimately show "\<not> ascii (content ! q)" using all by auto
  qed
qed

lemma loop_counting:
  assumes sp: "sp \<noteq> - 1"
  shows "pos \<le> length content \<Longrightarrow>
    findTerraformBlock_loop content pos sp d =
      (case close_pos (drop pos content) pos d of
         None \<Rightarrow> (- 1, - 1) | Some e \<Rightarrow> (sp, int e))"
proof (induction "length content - pos" arbitrary: pos d rule: less_induct)
  case less
  show ?case
  proof (cases "pos = length content")
    case True
    then show ?thesis by (simp add: loop_end)
  next
    case False
    with less.prems have lt: "pos < length content" by simp
    have dr: "drop pos content = content ! pos # drop (Suc pos) content"
      using lt by (simp add: Cons_nth_drop_Suc)
    show ?thesis
    proof (cases "ascii (content ! pos)")
      case True
      have IH: "findTerraformBlock_loop content (Suc pos) sp d' =
        (case close_pos (drop (Suc pos) content) (Suc pos) d' of
           None \<Rightarrow> (- 1, - 1) | Some e \<Rightarrow> (sp, int e))" for d'
        using less.hyps [of "Suc pos" d'] lt by simp
      show ?thesis
        unfolding loop_started_ascii [OF lt sp True] dr by (simp add: IH)
    next
      case False
      let ?w = "snd (range_next (drop pos content))"
      have w1: "1 \<le> ?w" by (rule range_next_width)
      have le: "pos + ?w \<le> length content" using lt False by (rule rune_span)
      have nb: "\<forall>c \<in> set (take ?w (drop pos content)). \<not> brace c"
      proof
        fix c assume "c \<in> set (take ?w (drop pos content))"
        then obtain i where i: "i < length (take ?w (drop pos content))"
          and c: "c = take ?w (drop pos content) ! i"
          by (auto simp: in_set_conv_nth)
        from i le have "c = content ! (pos + i)" and "pos + i < pos + ?w"
          using c by simp_all
        then have "\<not> ascii c" using rune_span(2) [OF lt False] by simp
        then show "\<not> brace c" by (rule not_ascii_not_brace)
      qed
      have IH: "findTerraformBlock_loop content (pos + ?w) sp d =
        (case close_pos (drop (pos + ?w) content) (pos + ?w) d of
           None \<Rightarrow> (- 1, - 1) | Some e \<Rightarrow> (sp, int e))"
        using less.hyps [of "pos + ?w" d] lt w1 le by simp
      have split: "drop pos content = take ?w (drop pos content) @ drop (pos + ?w) content"
        by (metis append_take_drop_id drop_drop add.commute)
      have "close_pos (drop pos content) pos d
              = close_pos (drop (pos + ?w) content) (pos + length (take ?w (drop pos content))) d"
        by (subst split) (rule close_pos_skip [OF nb])
      also have "length (take ?w (drop pos content)) = ?w" using le by simp
      finally show ?thesis
        unfolding loop_started_not_ascii [OF lt sp False] IH by simp
    qed
  qed
qed

lemma occurs_atD:
  assumes "occurs_at content p"
  shows "p + 9 \<le> length content" and "content ! p = CHR ''t''"
proof -
  from assms have eq: "take 9 (drop p content) = ''terraform''"
    by (simp add: occurs_at_def slice_def)
  then have "length (take 9 (drop p content)) = 9" by simp
  then show le: "p + 9 \<le> length content" by simp
  have "take 9 (drop p content) ! 0 = content ! p" using le by simp
  then show "content ! p = CHR ''t''" unfolding eq by simp
qed

lemma ascii_t: "ascii CHR ''t''"
  by (simp add: ascii_def byte_def)

lemma loop_search_skip:
  assumes "pos + 9 < length content" and "\<not> occurs_at content pos"
  shows "findTerraformBlock_loop content pos (- 1) d =
    findTerraformBlock_loop content (pos + snd (range_next (drop pos content))) (- 1) d"
  by (subst findTerraformBlock_loop.simps) (use assms in \<open>simp add: Let_def occurs_at_def\<close>)

lemma loop_search_start:
  assumes "pos < length content" and "length content \<le> pos + 9 \<or> occurs_at content pos"
  shows "findTerraformBlock_loop content pos (- 1) d =
    findTerraformBlock_loop content pos (int pos) d"
proof -
  have ne: "int pos \<noteq> - 1" by simp
  show ?thesis
    apply (subst findTerraformBlock_loop.simps [of content pos "- 1"])
    apply (subst findTerraformBlock_loop.simps [of content pos "int pos"])
    using assms ne by (auto simp: Let_def occurs_at_def)
qed

lemma rune_next_before:
  assumes "pos < p" and "p < length content" and "ascii (content ! p)"
  shows "pos + snd (range_next (drop pos content)) \<le> p"
proof (cases "ascii (content ! pos)")
  case True
  have lt: "pos < length content" using assms by simp
  have "range_next (drop pos content) = (byte (content ! pos), 1)"
    using lt True by (rule range_next_at_ascii)
  then show ?thesis using assms(1) by simp
next
  case False
  have lt: "pos < length content" using assms by simp
  show ?thesis
  proof (rule ccontr)
    assume "\<not> ?thesis"
    then have "pos \<le> p \<and> p < pos + snd (range_next (drop pos content))"
      using assms(1) by simp
    then have "\<not> ascii (content ! p)" using rune_span(2) [OF lt False] by blast
    then show False using assms(3) by simp
  qed
qed

lemma loop_search_finds:
  assumes occ: "occurs_at content p" and first: "\<forall>q<p. \<not> occurs_at content q"
  shows "pos \<le> p \<Longrightarrow>
    findTerraformBlock_loop content pos (- 1) d = findTerraformBlock_loop content p (int p) d"
proof (induction "p - pos" arbitrary: pos rule: less_induct)
  case less
  have pl: "p + 9 \<le> length content" and pt: "content ! p = CHR ''t''"
    using occurs_atD [OF occ] by simp_all
  show ?case
  proof (cases "pos = p")
    case True
    then show ?thesis using loop_search_start [of p content d] occ pl by simp
  next
    case False
    with less.prems have lt: "pos < p" by simp
    let ?w = "snd (range_next (drop pos content))"
    have w1: "1 \<le> ?w" by (rule range_next_width)
    have le: "pos + ?w \<le> p"
      using lt by (rule rune_next_before) (use pl pt ascii_t in simp_all)
    have "findTerraformBlock_loop content pos (- 1) d =
      findTerraformBlock_loop content (pos + ?w) (- 1) d"
      using lt pl first by (intro loop_search_skip) simp_all
    also have "\<dots> = findTerraformBlock_loop content p (int p) d"
      using less.hyps [of "pos + ?w"] le w1 lt by simp
    finally show ?thesis .
  qed
qed

lemma close_pos_bounds:
  "close_pos xs pos d = Some e \<Longrightarrow> pos < e \<and> e \<le> pos + length xs"
  by (induction xs arbitrary: pos d) (fastforce split: if_splits)+

lemma loop_search_result:
  assumes "findTerraformBlock_loop content pos (- 1) d = (s, e)" and "s \<noteq> - 1"
    and "pos \<le> length content"
  shows "\<exists>sn en. s = int sn \<and> e = int en \<and> pos \<le> sn \<and> sn < length content
           \<and> close_pos (drop sn content) sn d = Some en
           \<and> (\<forall>q. pos \<le> q \<and> q < sn \<longrightarrow> \<not> occurs_at content q)"
  using assms
proof (induction "length content - pos" arbitrary: pos rule: less_induct)
  case less
  show ?case
  proof (cases "pos = length content")
    case True
    then show ?thesis using less.prems by (simp add: loop_end)
  next
    case False
    with less.prems have lt: "pos < length content" by simp
    show ?thesis
    proof (cases "pos + 9 < length content \<and> \<not> occurs_at content pos")
      case True
      let ?w = "snd (range_next (drop pos content))"
      have w1: "1 \<le> ?w" by (rule range_next_width)
      have le: "pos + ?w \<le> length content"
      proof (cases "ascii (content ! pos)")
        case True
        have "range_next (drop pos content) = (byte (content ! pos), 1)"
          using lt True by (rule range_next_at_ascii)
        then show ?thesis using lt by simp
      next
        case False
        with lt show ?thesis by (rule rune_span)
      qed
      have step: "findTerraformBlock_loop content (pos + ?w) (- 1) d = (s, e)"
        using loop_search_skip [of pos content d] True less.prems(1) by simp
      have dec: "length content - (pos + ?w) < length content - pos"
        using lt w1 by simp
      obtain sn en where r: "s = int sn" "e = int en" "pos + ?w \<le> sn" "sn < length content"
        "close_pos (drop sn content) sn d = Some en"
        "\<forall>q. pos + ?w \<le> q \<and> q < sn \<longrightarrow> \<not> occurs_at content q"
        using less.hyps [OF dec step less.prems(2) le] by blast
      have "\<not> occurs_at content q" if q: "pos \<le> q \<and> q < sn" for q
      proof (cases "pos + ?w \<le> q")
        case True
        then show ?thesis using r(6) q by simp
      next
        case inside: False
        show ?thesis
        proof
          assume oq: "occurs_at content q"
          have qa: "ascii (content ! q)" and ql: "q < length content"
            using occurs_atD [OF oq] ascii_t by simp_all
          show False
          proof (cases "q = pos")
            case True
            then show False using oq \<open>pos + 9 < length content \<and> \<not> occurs_at content pos\<close>
              by simp
          next
            case False
            then have "pos < q" using q by simp
            then have "pos + ?w \<le> q" using ql qa by (rule rune_next_before)
            then show False using inside by simp
          qed
        qed
      qed
      then show ?thesis using r w1 by (intro exI [of _ sn] exI [of _ en]) auto
    next
      case False
      then have st: "length content \<le> pos + 9 \<or> occurs_at content pos" by auto
      have ne: "int pos \<noteq> - 1" by simp
      have "findTerraformBlock_loop content pos (int pos) d = (s, e)"
        using loop_search_start [OF lt st, of d] less.prems(1) by simp
      then have c: "(case close_pos (drop pos content) pos d of
                       None \<Rightarrow> (- 1, - 1) | Some en \<Rightarrow> (int pos, int en)) = (s, e)"
        using loop_counting [OF ne, of pos content d] lt by simp
      then obtain en where "close_pos (drop pos content) pos d = Some en"
        and "s = int pos" and "e = int en"
        using less.prems(2) by (cases "close_pos (drop pos content) pos d") auto
      then show ?thesis using lt by (intro exI [of _ pos] exI [of _ en]) auto
    qed
  qed
qed

lemma occurs_at_occurrences: "occurs_at content p \<longleftrightarrow> p \<in> set (occurrences content)"
  using occurs_atD(1) [of content p] by (auto simp: occurrences_def)

lemma scenario_located: "findTerraformBlock scenario_text = (4, 37)"
  by code_simp

lemma findTerraformBlock_bounds:
  assumes "findTerraformBlock content = (start, end)" and "start \<noteq> - 1"
  shows "0 \<le> start \<and> start < end \<and> end \<le> int (length content)"
proof -
  obtain sn en where r: "start = int sn" "end = int en" "sn < length content"
    "close_pos (drop sn content) sn 0 = Some en"
    using loop_search_result [of content 0 0 start "end"] assms
    by (auto simp: findTerraformBlock_def)
  from close_pos_bounds [OF r(4)] r(3) have "sn < en \<and> en \<le> length content" by simp
  then show ?thesis using r by simp
qed

section \<open>The rewritten text\<close>

lemma tfBlock_expand:
  "Sprintf backendConfig [hn, org, ws] =
     ''terraform {'' @ [LF] @
     ''  backend \"remote\" {'' @ [LF] @
     ''    hostname     = \"'' @ hn @ ''\"'' @ [LF] @
     ''    organization = \"'' @ org @ ''\"'' @ [LF] @
     [LF] @
     ''    workspaces {'' @ [LF] @
     ''      name = \"'' @ ws @ ''\"'' @ [LF] @
     ''    }'' @ [LF] @
     ''  }'' @ [LF] @
     ''}''"
  by (simp add: backendConfig_def LF_def)

lemma close_pos_skip_filter:
  "filter brace xs = [] \<Longrightarrow> close_pos (xs @ ys) pos d = close_pos ys (pos + length xs) d"
  by (rule close_pos_skip) (simp add: filter_empty_conv)

lemma tfBlock_closes:
  assumes "filter brace hn = []" and "filter brace org = []" and "filter brace ws = []"
  shows "close_pos (Sprintf backendConfig [hn, org, ws] @ post) p 0
           = Some (p + length (Sprintf backendConfig [hn, org, ws]))"
  unfolding tfBlock_expand using assms by (simp add: close_pos_skip_filter LF_def)

lemma tfBlock_keyword: "\<exists>rest. Sprintf backendConfig [hn, org, ws] = ''terraform'' @ rest"
  unfolding tfBlock_expand by simp

lemma findTerraformBlock_first_occurrence:
  assumes "occurs_at content p" and "\<forall>q<p. \<not> occurs_at content q"
  shows "findTerraformBlock content =
    (case close_pos (drop p content) p 0 of
       None \<Rightarrow> (- 1, - 1) | Some e \<Rightarrow> (int p, int e))"
proof -
  have ne: "int p \<noteq> - 1" by simp
  have le: "p \<le> length content" using occurs_atD(1) [OF assms(1)] by simp
  have "findTerraformBlock content = findTerraformBlock_loop content p (int p) 0"
    unfolding findTerraformBlock_def using assms by (intro loop_search_finds) simp_all
  then show ?thesis using loop_counting [OF ne le, of 0] by simp
qed

lemma keyword_no_border:
  assumes "1 \<le> k" and "k < 9"
  shows "''terraform'' ! k \<noteq> CHR ''t''"
proof -
  from assms have "k = 1 \<or> k = 2 \<or> k = 3 \<or> k = 4 \<or> k = 5 \<or> k = 6 \<or> k = 7 \<or> k = 8"
    by arith
  then show ?thesis by auto
qed

lemma occurs_at_append:
  assumes "q + 9 \<le> length pre"
  shows "occurs_at (pre @ rest) q \<longleftrightarrow> occurs_at pre q"
  using assms by (simp add: occurs_at_def slice_def)

lemma occurs_at_take:
  assumes "q + 9 \<le> n"
  shows "occurs_at (take n content) q \<longleftrightarrow> occurs_at content q"
proof -
  have "take 9 (drop q (take n content)) = take 9 (drop q content)"
    using assms by (simp add: drop_take min_def)
  then show ?thesis by (simp add: occurs_at_def slice_def)
qed

lemma nth_slice:
  assumes "k < n" and "q + n \<le> length r"
  shows "take n (drop q r) ! k = r ! (q + k)"
proof -
  have "take n (drop q r) ! k = drop q r ! k" using assms(1) by simp
  also have "\<dots> = r ! (q + k)" using assms(2) by (intro nth_drop) simp
  finally show ?thesis .
qed

lemma no_occurrence_before_splice:
  assumes first: "\<forall>q<sn. \<not> occurs_at content q" and sn: "sn \<le> length content"
  shows "\<forall>q<sn. \<not> occurs_at (take sn content @ ''terraform'' @ rest) q"
proof (intro allI impI notI)
  fix q assume q: "q < sn"
  let ?r = "take sn content @ ''terraform'' @ rest"
  assume occ: "occurs_at ?r q"
  have len: "length (take sn content) = sn" using sn by simp
  show False
  proof (cases "q + 9 \<le> sn")
    case True
    then have "q + 9 \<le> length (take sn content)" using len by simp
    then have "occurs_at (take sn content) q" using occ by (simp add: occurs_at_append)
    then have "occurs_at content q" using occurs_at_take [OF True] by simp
    then show False using first q by simp
  next
    case False
    define k where "k = sn - q"
    have k: "1 \<le> k" "k < 9" "q + k = sn" using q False by (simp_all add: k_def)
    have eq: "take 9 (drop q ?r) = ''terraform''"
      using occ by (simp add: occurs_at_def slice_def)
    have ql: "q + 9 \<le> length ?r" using occurs_atD(1) [OF occ] .
    have "take 9 (drop q ?r) ! k = ?r ! (q + k)"
      using k(2) ql by (rule nth_slice)
    also have "\<dots> = ?r ! length (take sn content)" using k len by simp
    also have "\<dots> = CHR ''t''" by (simp only: nth_append_length append.simps)
    finally have "''terraform'' ! k = CHR ''t''" unfolding eq .
    then show False using keyword_no_border [OF k(1,2)] by simp
  qed
qed

lemma occurs_at_splice:
  assumes "sn \<le> length content"
  shows "occurs_at (take sn content @ ''terraform'' @ rest) sn"
  using assms by (simp add: occurs_at_def slice_def)

lemma slice_ends: "slice s 0 n = take n s" "slice s i (length s) = drop i s"
  by (simp_all add: slice_def)

section \<open>Balanced blocks\<close>

lemma depth_append: "depth (xs @ ys) = depth xs + depth ys"
  by (induction xs) simp_all

lemma depth_no_brace: "filter brace xs = [] \<Longrightarrow> depth xs = 0"
  by (induction xs) (auto simp: brace_def split: if_splits)

lemma balanced_from_no_brace:
  "filter brace xs = [] \<Longrightarrow> balanced_from n (xs @ ys) = balanced_from n ys"
  by (induction xs) (auto simp: brace_def split: if_splits)

lemma balanced_from_append:
  "balanced_from n xs \<Longrightarrow> balanced_from (n + m) (xs @ ys) = balanced_from m ys"
proof (induction xs arbitrary: n)
  case Nil
  then show ?case by simp
next
  case (Cons c cs)
  show ?case
  proof (cases "c = CHR ''{''")
    case True
    then show ?thesis using Cons.IH [of "Suc n"] Cons.prems by simp
  next
    case False
    show ?thesis
    proof (cases "c = CHR ''}''")
      case True
      with Cons.prems have n: "0 < n" and b: "balanced_from (n - 1) cs" by simp_all
      have "n - 1 + m = n + m - 1" using n by simp
      then show ?thesis using Cons.IH [OF b] True n by simp
    next
      case nb: False
      then show ?thesis using Cons.IH [of n] Cons.prems False by simp
    qed
  qed
qed

lemma balanced_from_depth: "balanced_from n xs \<Longrightarrow> int n + depth xs = 0"
proof (induction xs arbitrary: n)
  case Nil
  then show ?case by simp
next
  case (Cons c cs)
  show ?case
  proof (cases "c = CHR ''{''")
    case True
    then show ?thesis using Cons.IH [of "Suc n"] Cons.prems by simp
  next
    case False
    show ?thesis
    proof (cases "c = CHR ''}''")
      case True
      with Cons.prems have n: "0 < n" and b: "balanced_from (n - 1) cs" by simp_all
      show ?thesis using Cons.IH [OF b] True n by simp
    next
      case nb: False
      then show ?thesis using Cons.IH [of n] Cons.prems False by simp
    qed
  qed
qed

lemma balanced_from_prefix: "balanced_from n xs \<Longrightarrow> 0 \<le> int n + depth (take k xs)"
proof (induction xs arbitrary: n k)
  case Nil
  then show ?case by simp
next
  case (Cons c cs)
  show ?case
  proof (cases k)
    case 0
    then show ?thesis by simp
  next
    case (Suc k')
    show ?thesis
    proof (cases "c = CHR ''{''")
      case True
      then show ?thesis using Cons.IH [of "Suc n" k'] Cons.prems Suc by simp
    next
      case False
      show ?thesis
      proof (cases "c = CHR ''}''")
        case True
        with Cons.prems have n: "0 < n" and b: "balanced_from (n - 1) cs" by simp_all
        show ?thesis using Cons.IH [OF b, of k'] True n Suc by simp
      next
        case nb: False
        then show ?thesis using Cons.IH [of n k'] Cons.prems False Suc by simp
      qed
    qed
  qed
qed

lemma close_pos_balanced:
  "balanced_from n xs \<Longrightarrow> 1 \<le> k \<Longrightarrow>
     close_pos (xs @ ys) pos (int n + k) = close_pos ys (pos + length xs) k"
proof (induction xs arbitrary: n pos)
  case Nil
  then show ?case by simp
next
  case (Cons c cs)
  show ?case
  proof (cases "c = CHR ''{''")
    case True
    have e: "int n + k + 1 = int (Suc n) + k" by simp
    have "close_pos ((c # cs) @ ys) pos (int n + k) = close_pos (cs @ ys) (pos + 1) (int n + k + 1)"
      using True Cons.prems(2) by simp
    also have "\<dots> = close_pos (cs @ ys) (pos + 1) (int (Suc n) + k)"
      unfolding e ..
    also have "\<dots> = close_pos ys (pos + 1 + length cs) k"
      using Cons.prems True by (intro Cons.IH) simp_all
    finally show ?thesis by simp
  next
    case False
    show ?thesis
    proof (cases "c = CHR ''}''")
      case True
      with Cons.prems have n: "0 < n" and b: "balanced_from (n - 1) cs" by simp_all
      have e: "int n + k - 1 = int (n - 1) + k" using n by simp
      have "close_pos ((c # cs) @ ys) pos (int n + k) = close_pos (cs @ ys) (pos + 1) (int n + k - 1)"
        using True n Cons.prems(2) by simp
      also have "\<dots> = close_pos (cs @ ys) (pos + 1) (int (n - 1) + k)"
        unfolding e ..
      also have "\<dots> = close_pos ys (pos + 1 + length cs) k"
        using b Cons.prems(2) by (rule Cons.IH)
      finally show ?thesis by simp
    next
      case nb: False
      have "close_pos ((c # cs) @ ys) pos (int n + k) = close_pos (cs @ ys) (pos + 1) (int n + k)"
        using False nb by simp
      also have "\<dots> = close_pos ys (pos + 1 + length cs) k"
        using Cons.prems False nb by (intro Cons.IH) simp_all
      finally show ?thesis by simp
    qed
  qed
qed

lemma keyword_no_brace: "filter brace ''terraform'' = []"
  by (simp add: brace_def)

lemma slice_middle: "slice (pre @ mid @ post) (length pre) (length pre + length mid) = mid"
  by (simp add: slice_def)

lemma slice_middle_prefix:
  assumes "k \<le> length B"
  shows "slice (pre @ A @ B @ rest) (length pre) (length pre + length A + k) = A @ take k B"
  using assms by (simp add: slice_def)

lemma locate_block_general:
  assumes content: "content = pre @ kw @ hdr @ [CHR ''{''] @ body @ [CHR ''}''] @ post"
    and kw: "kw = ''terraform''"
    and first: "\<forall>q<length pre. \<not> occurs_at content q"
    and hdr: "filter brace hdr = []"
    and body: "balanced body"
  shows "findTerraformBlock content =
           (int (length pre), int (length pre + 9 + length hdr + 1 + length body + 1))"
    and "slice content (length pre) (length pre + 9) = kw"
    and "content ! (length pre + 9 + length hdr + 1 + length body) = CHR ''}''"
    and "slice content (length pre) (length pre + 9 + length hdr + 1 + length body + 1)
           = kw @ hdr @ [CHR ''{''] @ body @ [CHR ''}'']"
    and "\<forall>j. length pre + 9 + length hdr < j
               \<and> j < length pre + 9 + length hdr + 1 + length body + 1
               \<longrightarrow> slice content (length pre) j
                     = kw @ hdr @ [CHR ''{''] @ take (j - (length pre + 9 + length hdr + 1)) body"
proof -
  let ?p = "length pre"
  let ?e = "?p + 9 + length hdr + 1 + length body + 1"
  let ?span = "kw @ hdr @ [CHR ''{''] @ body @ [CHR ''}'']"
  have l9: "length kw = 9" and nb: "filter brace kw = []"
    unfolding kw by (simp_all add: brace_def)
  have lspan: "?p + length ?span = ?e" using l9 by simp
  have c1: "content = pre @ kw @ (hdr @ [CHR ''{''] @ body @ [CHR ''}''] @ post)"
    and c2: "content = pre @ ?span @ post"
    unfolding content by simp_all
  have s9: "slice content ?p (?p + 9) = kw"
    using slice_middle [of pre kw "hdr @ [CHR ''{''] @ body @ [CHR ''}''] @ post"]
    unfolding c1 [symmetric] l9 .
  then show "slice content (length pre) (length pre + 9) = kw" .
  have occ: "occurs_at content ?p"
    using s9 by (simp add: occurs_at_def kw)
  have dr: "drop ?p content = kw @ hdr @ [CHR ''{''] @ body @ [CHR ''}''] @ post"
    unfolding content by simp
  have "close_pos (drop ?p content) ?p 0
          = close_pos (hdr @ [CHR ''{''] @ body @ [CHR ''}''] @ post) (?p + length kw) 0"
    unfolding dr using nb by (rule close_pos_skip_filter)
  also have "\<dots> = close_pos ([CHR ''{''] @ body @ [CHR ''}''] @ post) (?p + length kw + length hdr) 0"
    using hdr by (rule close_pos_skip_filter)
  also have "\<dots> = close_pos (body @ [CHR ''}''] @ post) (?p + length kw + length hdr + 1) (int 0 + 1)"
    by simp
  also have "\<dots> = close_pos ([CHR ''}''] @ post) (?p + length kw + length hdr + 1 + length body) 1"
    using body unfolding balanced_def by (intro close_pos_balanced) simp_all
  also have "\<dots> = Some (?p + length kw + length hdr + 1 + length body + 1)" by simp
  finally have "close_pos (drop ?p content) ?p 0 = Some ?e" unfolding l9 .
  then show "findTerraformBlock content = (int ?p, int ?e)"
    using findTerraformBlock_first_occurrence [OF occ first] by simp
  show "content ! (?p + 9 + length hdr + 1 + length body) = CHR ''}''"
  proof -
    have "content = (pre @ kw @ hdr @ [CHR ''{''] @ body) @ CHR ''}'' # post"
      unfolding content by simp
    moreover have "length (pre @ kw @ hdr @ [CHR ''{''] @ body)
                     = ?p + 9 + length hdr + 1 + length body" using l9 by simp
    ultimately show ?thesis by (metis nth_append_length)
  qed
  show "slice content ?p ?e = ?span"
    using slice_middle [of pre ?span post] unfolding c2 [symmetric] lspan .
  show "\<forall>j. ?p + 9 + length hdr < j \<and> j < ?e
          \<longrightarrow> slice content ?p j = kw @ hdr @ [CHR ''{''] @ take (j - (?p + 9 + length hdr + 1)) body"
  proof (intro allI impI)
    fix j assume j: "?p + 9 + length hdr < j \<and> j < ?e"
    define k where "k = j - (?p + 9 + length hdr + 1)"
    have k: "k \<le> length body" and jk: "j = ?p + length (kw @ hdr @ [CHR ''{'']) + k"
      using j l9 by (auto simp: k_def)
    have c3: "content = pre @ (kw @ hdr @ [CHR ''{'']) @ body @ ([CHR ''}''] @ post)"
      unfolding content by simp
    have "slice content ?p j = (kw @ hdr @ [CHR ''{'']) @ take k body"
      unfolding jk using slice_middle_prefix [OF k, of pre "kw @ hdr @ [CHR ''{'']" "[CHR ''}''] @ post"]
      unfolding c3 [symmetric] .
    then show "slice content ?p j = kw @ hdr @ [CHR ''{''] @ take (j - (?p + 9 + length hdr + 1)) body"
      by (simp add: k_def)
  qed
qed

lemma span_depth:
  assumes nb: "filter brace kw = []" and hdr: "filter brace hdr = []" and body: "balanced body"
  shows "depth (kw @ hdr @ [CHR ''{''] @ body @ [CHR ''}'']) = 0"
    and "0 < depth (kw @ hdr @ [CHR ''{''] @ take k body)"
    and "balanced (kw @ hdr @ [CHR ''{''] @ body @ [CHR ''}''])"
proof -
  show "depth (kw @ hdr @ [CHR ''{''] @ body @ [CHR ''}'']) = 0"
    using balanced_from_depth [of 0 body] body hdr nb
    by (simp add: depth_append depth_no_brace balanced_def)
  show "0 < depth (kw @ hdr @ [CHR ''{''] @ take k body)"
    using balanced_from_prefix [of 0 body k] body hdr nb
    by (simp add: depth_append depth_no_brace balanced_def)
  have "balanced_from 0 (kw @ hdr @ [CHR ''{''] @ body @ [CHR ''}''])
          = balanced_from 0 (hdr @ [CHR ''{''] @ body @ [CHR ''}''])"
    using nb by (rule balanced_from_no_brace)
  also have "\<dots> = balanced_from 0 ([CHR ''{''] @ body @ [CHR ''}''])"
    using hdr by (rule balanced_from_no_brace)
  also have "\<dots> = balanced_from (0 + 1) (body @ [CHR ''}''])" by simp
  also have "\<dots> = balanced_from 1 [CHR ''}'']"
    using body unfolding balanced_def by (rule balanced_from_append)
  finally show "balanced (kw @ hdr @ [CHR ''{''] @ body @ [CHR ''}''])"
    by (simp add: balanced_def)
qed

section \<open>The invariant of the pipeline\<close>

lemma sum_list_map_update:
  fixes f :: "'a \<Rightarrow> 'b::comm_monoid_add"
  shows "k < length xs \<Longrightarrow>
    sum_list (map f (xs[k := x])) + f (xs ! k) = sum_list (map f xs) + f x"
proof (induction xs arbitrary: k)
  case Nil
  then show ?case by simp
next
  case (Cons a xs)
  show ?case
  proof (cases k)
    case 0
    then show ?thesis by (simp add: ac_simps)
  next
    case (Suc j)
    with Cons.prems have "j < length xs" by simp
    from Cons.IH [OF this] show ?thesis using Suc by (simp add: ac_simps)
  qed
qed

lemma unlogged_update:
  assumes "k < length ws"
  shows "sum_list (map unlogged (ws[k := x])) + unlogged (ws ! k)
           = sum_list (map unlogged ws) + unlogged x"
  using assms by (rule sum_list_map_update)

lemma busy_update:
  assumes "k < length ws"
  shows "sum_list (map busy (ws[k := x])) + busy (ws ! k) = sum_list (map busy ws) + busy x"
  using assms by (rule sum_list_map_update)

lemma not_Exited_update:
  assumes "Exited \<notin> set ws" and "x \<noteq> Exited"
  shows "Exited \<notin> set (ws[k := x])"
  using assms set_update_subset_insert [of ws k x] by auto

lemma inv_init: "inv (length ts) (init ts w)"
proof -
  have "sum_list (map unlogged (replicate n Idle)) = {#}" for n
    by (induction n) (simp_all add: unlogged_def)
  moreover have "sum_list (map busy (replicate n Idle)) = 0" for n
    by (induction n) (simp_all add: busy_def)
  ultimately show ?thesis
    by (simp add: inv_def init_def pc_ok_def sent_def sending_def)
qed

lemma busy_zero_idle:
  assumes "sum_list (map busy ws) = 0" and "Exited \<notin> set ws" and "k < length ws"
  shows "ws ! k = Idle"
proof -
  have "ws ! k \<in> set ws" using assms(3) by simp
  then have "busy (ws ! k) = 0" using assms(1) by auto
  moreover have "ws ! k \<noteq> Exited" using assms(2) \<open>ws ! k \<in> set ws\<close> by auto
  ultimately show ?thesis by (cases "ws ! k") (simp_all add: busy_def)
qed

lemma inv_step:
  assumes "inv N s" and "step v m sv s s'"
  shows "inv N s'"
  using assms(2)
proof (cases rule: step.cases)
  case (main_add i)
  then show ?thesis using assms(1)
    by (simp add: inv_def pc_ok_def sent_def sending_def)
next
  case (main_send i)
  then show ?thesis using assms(1)
    by (auto simp: inv_def pc_ok_def sent_def sending_def)
next
  case (main_wait i)
  then show ?thesis using assms(1)
    by (simp add: inv_def pc_ok_def sent_def sending_def)
next
  case main_finish
  then show ?thesis using assms(1)
    by (simp add: inv_def pc_ok_def sent_def sending_def)
next
  case (worker_receive k i rest)
  have u: "sum_list (map unlogged ((wstates s)[k := Running i DownloadState]))
             = sum_list (map unlogged (wstates s)) + {#i#}"
    using unlogged_update [OF worker_receive(2), of "Running i DownloadState"] worker_receive(3)
    by (simp add: unlogged_def)
  have b: "sum_list (map busy ((wstates s)[k := Running i DownloadState]))
             = sum_list (map busy (wstates s)) + 1"
    using busy_update [OF worker_receive(2), of "Running i DownloadState"] worker_receive(3)
    by (simp add: busy_def)
  have e: "Exited \<notin> set ((wstates s)[k := Running i DownloadState])"
    using assms(1) by (intro not_Exited_update) (simp_all add: inv_def)
  have f: "pc s = Finished \<longrightarrow> False"
    using assms(1) worker_receive(4) by (auto simp: inv_def)
  show ?thesis using assms(1) worker_receive(1,4) u b e f
    by (simp add: inv_def)
next
  case (worker_exit k)
  then show ?thesis using assms(1) by (simp add: inv_def)
next
  case (worker_stage k i st st' task' w')
  have u: "sum_list (map unlogged ((wstates s)[k := Running i st']))
             = sum_list (map unlogged (wstates s))"
    using unlogged_update [OF worker_stage(2), of "Running i st'"] worker_stage(3)
    by (simp add: unlogged_def)
  have b: "sum_list (map busy ((wstates s)[k := Running i st']))
             = sum_list (map busy (wstates s))"
    using busy_update [OF worker_stage(2), of "Running i st'"] worker_stage(3)
    by (simp add: busy_def)
  have e: "Exited \<notin> set ((wstates s)[k := Running i st'])"
    using assms(1) by (intro not_Exited_update) (simp_all add: inv_def)
  show ?thesis using assms(1) worker_stage(1) u b e
    by (auto simp: inv_def)
next
  case (worker_log k i err)
  have u: "sum_list (map unlogged ((wstates s)[k := Finishing i])) + {#i#}
             = sum_list (map unlogged (wstates s))"
    using unlogged_update [OF worker_log(2), of "Finishing i"] worker_log(3)
    by (simp add: unlogged_def)
  have b: "sum_list (map busy ((wstates s)[k := Finishing i]))
             = sum_list (map busy (wstates s))"
    using busy_update [OF worker_log(2), of "Finishing i"] worker_log(3)
    by (simp add: busy_def)
  have e: "Exited \<notin> set ((wstates s)[k := Finishing i])"
    using assms(1) by (intro not_Exited_update) (simp_all add: inv_def)
  have t: "task_of (k, i, log_line_of (task_heap s ! i) err) = i" by (simp add: task_of_def)
  have ia: "mset (queue s) + sum_list (map unlogged (wstates s)) + mset (map task_of (logged s))
              = mset [0..<sent N (pc s)]"
    using assms(1) by (simp add: inv_def)
  have "mset (queue s) + sum_list (map unlogged ((wstates s)[k := Finishing i]))
          + mset (map task_of (logged s @ [(k, i, log_line_of (task_heap s ! i) err)]))
        = mset (queue s) + (sum_list (map unlogged ((wstates s)[k := Finishing i])) + {#i#})
          + mset (map task_of (logged s))"
    by (simp add: t)
  also have "\<dots> = mset (queue s) + sum_list (map unlogged (wstates s))
                     + mset (map task_of (logged s))"
    by (simp only: u)
  also have "\<dots> = mset [0..<sent N (pc s)]" by (rule ia)
  finally have a: "mset (queue s) + sum_list (map unlogged ((wstates s)[k := Finishing i]))
          + mset (map task_of (logged s @ [(k, i, log_line_of (task_heap s ! i) err)]))
        = mset [0..<sent N (pc s)]" .
  show ?thesis using assms(1) worker_log(1) a b e
    by (auto simp: inv_def)
next
  case (worker_done k i)
  have u: "sum_list (map unlogged ((wstates s)[k := Idle]))
             = sum_list (map unlogged (wstates s))"
    using unlogged_update [OF worker_done(2), of Idle] worker_done(3)
    by (simp add: unlogged_def)
  have b: "sum_list (map busy ((wstates s)[k := Idle])) + 1
             = sum_list (map busy (wstates s))"
    using busy_update [OF worker_done(2), of Idle] worker_done(3)
    by (simp add: busy_def)
  have e: "Exited \<notin> set ((wstates s)[k := Idle])"
    using assms(1) by (intro not_Exited_update) (simp_all add: inv_def)
  have f: "pc s = Finished \<longrightarrow> False"
    using assms(1) b by (auto simp: inv_def)
  have w: "wg s - 1 = int (length (queue s) + sum_list (map busy ((wstates s)[k := Idle]))
                            + sending (pc s))"
    using assms(1) b by (simp add: inv_def)
  show ?thesis using assms(1) worker_done(1) u e f w
    by (simp add: inv_def)
qed

lemma reachable_inv:
  assumes "reachable v m sv ts w s"
  shows "inv (length ts) s"
  using assms by (induction rule: reachable.induct) (auto intro: inv_init inv_step)

lemma finished_state:
  assumes "inv N s" and "pc s = Finished"
  shows "queue s = []" and "\<forall>k<length (wstates s). wstates s ! k = Idle"
    and "mset (map task_of (logged s)) = mset [0..<N]"
proof -
  have "wg s = 0" and "sending (pc s) = 0"
    and "wg s = int (length (queue s) + sum_list (map busy (wstates s)) + sending (pc s))"
    using assms by (simp_all add: inv_def sending_def)
  then have z: "length (queue s) + sum_list (map busy (wstates s)) = 0"
    by linarith
  then show q: "queue s = []" by simp
  have ex: "Exited \<notin> set (wstates s)" using assms(1) by (simp add: inv_def)
  have bz: "sum_list (map busy (wstates s)) = 0" using z by simp
  show idle: "\<forall>k<length (wstates s). wstates s ! k = Idle"
    using busy_zero_idle [OF bz ex] by blast
  then have "\<forall>x \<in> set (wstates s). x = Idle" by (auto simp: in_set_conv_nth)
  moreover have "\<forall>x \<in> set ws. x = Idle \<Longrightarrow> sum_list (map unlogged ws) = {#}" for ws
    by (induction ws) (auto simp: unlogged_def)
  ultimately have "sum_list (map unlogged (wstates s)) = {#}" by blast
  then show "mset (map task_of (logged s)) = mset [0..<N]"
    using assms q by (simp add: inv_def sent_def)
qed

section \<open>The download stage\<close>

lemma find_field_folds:
  "find_field [''lineage'', ''serial'', ''terraform_version''] ''Serial'' = Some ''serial''"
  "find_field [''lineage'', ''serial'', ''terraform_version''] (CHR 0xC5 # CHR 0xBF # ''erial'')
     = Some ''serial''"
  "find_field [''lineage'', ''serial'', ''terraform_version''] ''terraform-version'' = None"
  by code_simp+

lemma Unmarshal_parse_error:
  "parse data = Inl err \<Longrightarrow> Unmarshal vk parse data m = (Some err, m)"
  by (simp add: Unmarshal_def)

lemma downloadState_incomplete:
  assumes "s3_Download sv (bucket t) (key t) w = (Inr data, w')"
    and "Unmarshal vk (json_parse sv) data (meta t) = (None, m')"
    and "Lineage m' = [] \<or> TerraformVersion m' = []"
  shows "downloadState vk sv t w
    = ((Some (IncompleteStateMetadata m'), t\<lparr>state := data, meta := m'\<rparr>), w')"
  using assms by (auto simp: downloadState_def Let_def)

lemma incomplete_metadata_stops:
  assumes "s3_Download sv (bucket t) (key t) w = (Inr data, w')"
    and "Unmarshal (version_key v) (json_parse sv) data (meta t) = (None, m')"
    and "Lineage m' = [] \<or> TerraformVersion m' = []"
  shows "stage_step v m sv DownloadState t w
    = ((Return (Some (IncompleteStateMetadata m')), t\<lparr>state := data, meta := m'\<rparr>), w')"
  using downloadState_incomplete [OF assms] by simp

lemma downloadState_parse_error:
  assumes "s3_Download sv (bucket t) (key t) w = (Inr data, w')"
    and "json_parse sv data = Inl err"
  shows "downloadState vk sv t w = ((None, t\<lparr>state := data\<rparr>), w')"
  using assms by (simp add: downloadState_def Let_def Unmarshal_parse_error)

section \<open>Reading the records\<close>

lemma rejected_simps:
  "rejected v (Inl err)" "rejected v (Inr flds) \<longleftrightarrow> length flds \<noteq> field_count v"
  by (simp_all add: rejected_def)

lemma read_tasks_rejected:
  "list_ex (rejected v) rs \<Longrightarrow> read_tasks v rs acc = Inl 1"
proof (induction rs arbitrary: acc)
  case Nil
  then show ?case by simp
next
  case (Cons r rs)
  show ?case
  proof (cases r)
    case (Inl err)
    then show ?thesis by simp
  next
    case (Inr flds)
    show ?thesis
    proof (cases "length flds = field_count v")
      case True
      with Cons.prems Inr have "list_ex (rejected v) rs" by (simp add: rejected_simps)
      then show ?thesis using Cons.IH Inr True by simp
    next
      case False
      then show ?thesis using Inr by simp
    qed
  qed
qed

lemma read_tasks_accepted:
  "read_tasks v rs acc = Inr ts \<Longrightarrow>
     \<not> list_ex (rejected v) rs \<and> ts = acc @ map (new_task v) (map projr rs)"
proof (induction rs arbitrary: acc)
  case Nil
  then show ?case by simp
next
  case (Cons r rs)
  show ?case
  proof (cases r)
    case (Inl err)
    then show ?thesis using Cons.prems by simp
  next
    case (Inr flds)
    with Cons.prems have len: "length flds = field_count v"
      and rest: "read_tasks v rs (acc @ [new_task v flds]) = Inr ts"
      by (simp_all split: if_splits)
    from Cons.IH [OF rest] show ?thesis using Inr len by (simp add: rejected_simps)
  qed
qed

lemma main_prelude_exit: "main_prelude v su = Inl code \<Longrightarrow> code = 1"
proof -
  have "read_tasks v rs acc = Inl c \<Longrightarrow> c = 1" for rs acc c
    by (induction v rs acc rule: read_tasks.induct) (auto split: if_splits)
  then show "main_prelude v su = Inl code \<Longrightarrow> code = 1"
    by (auto simp: main_prelude_def Let_def split: if_splits sum.splits)
qed

lemma main_prelude_rejected:
  assumes "list_ex (rejected v) (records su)"
  shows "main_prelude v su = Inl 1"
  using read_tasks_rejected [OF assms, of "[]"] by (simp add: main_prelude_def Let_def)

lemma main_prelude_accepted:
  assumes "main_prelude v su = Inr (m, ts)"
  shows "\<not> list_ex (rejected v) (records su)"
    and "ts = map (new_task v) (map projr (records su))"
proof -
  from assms have "read_tasks v (records su) [] = Inr ts"
    by (auto simp: main_prelude_def Let_def split: if_splits sum.splits)
  from read_tasks_accepted [OF this]
  show "\<not> list_ex (rejected v) (records su)"
    and "ts = map (new_task v) (map projr (records su))"
    by simp_all
qed

section \<open>The log\<close>

lemma downloadState_workspace:
  "downloadState vk sv t w = ((err, t'), w') \<Longrightarrow> workspace t' = workspace t"
  by (auto simp: downloadState_def Let_def split: prod.splits sum.splits option.splits if_splits)

lemma stage_step_workspace:
  "stage_step v m sv st t w = ((st', t'), w') \<Longrightarrow> workspace t' = workspace t"
proof (cases st)
  case DownloadState
  assume a: "stage_step v m sv st t w = ((st', t'), w')"
  obtain err t1 w1 where d: "downloadState (version_key v) sv t w = ((err, t1), w1)"
    by (metis surj_pair)
  from a d DownloadState have "t' = t1" by (cases err) simp_all
  then show ?thesis using downloadState_workspace [OF d] by simp
qed (auto split: prod.splits sum.splits option.splits variant.splits)

lemma line_workspace_log_line_of: "line_workspace (log_line_of t err) = workspace t"
  by (cases err) (simp_all add: line_workspace_def log_line_of_def)

lemma inv_log_init: "inv_log ts (init ts w)"
  by (simp add: inv_log_def init_def)

lemma inv_log_step:
  assumes "inv (length ts) s" and "inv_log ts s" and "step v m sv s s'"
  shows "inv_log ts s'"
  using assms(3)
proof (cases rule: step.cases)
  case (worker_stage k i st st' task' w')
  have "workspace task' = workspace (task_heap s ! i)"
    using worker_stage(6) by (rule stage_step_workspace)
  then have "map workspace ((task_heap s)[i := task']) = map workspace (task_heap s)"
    using worker_stage(5) by (simp add: map_update list_update_same_conv)
  then show ?thesis using assms(2) worker_stage(1) by (simp add: inv_log_def)
next
  case (worker_log k i err)
  have len: "length (wstates s) = workers" "length (task_heap s) = length ts"
    using assms(1) by (simp_all add: inv_def)
  have "workspace (task_heap s ! i) = workspace (ts ! i)"
  proof -
    have "map workspace (task_heap s) ! i = map workspace ts ! i"
      using assms(2) by (simp add: inv_log_def)
    then show ?thesis using worker_log(4) len by simp
  qed
  then show ?thesis using assms(2) worker_log(1,2,4) len
    by (auto simp: inv_log_def task_of_def line_workspace_log_line_of)
qed (use assms(2) in \<open>simp_all add: inv_log_def\<close>)

lemma reachable_inv_log:
  assumes "reachable v m sv ts w s"
  shows "inv_log ts s"
  using assms
proof (induction rule: reachable.induct)
  case reach_init
  show ?case by (rule inv_log_init)
next
  case (reach_step s s')
  from reach_step(1) have "inv (length ts) s" by (rule reachable_inv)
  then show ?case using reach_step(3,2) by (rule inv_log_step)
qed

lemma one_entry_per_task:
  assumes "mset (map task_of lg) = mset [0..<N]" and "i < N"
  shows "\<exists>!e. e \<in> set lg \<and> task_of e = i"
proof -
  have d: "distinct (map task_of lg)"
    using assms(1) by (metis distinct_upt mset_eq_imp_distinct_iff)
  have "set (map task_of lg) = set [0..<N]" using assms(1) by (rule mset_eq_setD)
  then have "i \<in> task_of ` set lg" using assms(2) by simp
  then obtain e where e: "e \<in> set lg" "task_of e = i" by auto
  have "inj_on task_of (set lg)" using d by (simp add: distinct_map)
  then have "e' = e" if "e' \<in> set lg" "task_of e' = i" for e'
    using that e by (auto dest: inj_onD)
  then show ?thesis using e by blast
qed

lemma pipeline_completion_aux:
  assumes "reachable v m sv ts w s" and "pc s = Finished"
  shows "length (logged s) = length ts \<and>
         (\<forall>i<length ts. \<exists>!e. e \<in> set (logged s) \<and> task_of e = i) \<and>
         (\<forall>e \<in> set (logged s). fst e < workers \<and> task_of e < length ts) \<and>
         queue s = [] \<and> wg s = 0 \<and> \<not> closed s \<and>
         length (wstates s) = workers \<and>
         (\<forall>k<workers. wstates s ! k = Idle)"
proof -
  have i: "inv (length ts) s" using assms(1) by (rule reachable_inv)
  have l: "inv_log ts s" using assms(1) by (rule reachable_inv_log)
  note f = finished_state [OF i assms(2)]
  have "size (mset (map task_of (logged s))) = size (mset [0..<length ts])"
    using f(3) by simp
  then have "length (logged s) = length ts" by simp
  moreover have "\<forall>i<length ts. \<exists>!e. e \<in> set (logged s) \<and> task_of e = i"
    using one_entry_per_task [OF f(3)] by blast
  moreover have "\<forall>e \<in> set (logged s). fst e < workers \<and> task_of e < length ts"
    using l by (simp add: inv_log_def)
  moreover have "wg s = 0" "\<not> closed s" "length (wstates s) = workers"
    using i assms(2) by (simp_all add: inv_def)
  ultimately show ?thesis using f(1,2) by simp
qed

lemma reachable_rtranclp:
  assumes "(step v m sv)\<^sup>*\<^sup>* s s'" and "reachable v m sv ts w s"
  shows "reachable v m sv ts w s'"
  using assms by (induction rule: rtranclp_induct) (auto intro: reachable.reach_step)

section \<open>A run in which the download fails\<close>

lemma failing_download:
  "stage_step WithBackend sample_migrator failing_services DownloadState sample_task []
     = ((Return (Some (External ''NoSuchKey'')), sample_task), [''Download''])"
  by (simp add: failing_services_def sample_services_def downloadState_def)

lemma workers_pos: "0 < workers"
  by (simp add: workers_def)

lemma failed_run_steps:
  defines "stp \<equiv> step WithBackend sample_migrator failing_services"
  shows "init [sample_task] [] = run_state (Adding 0) 0 [] Idle [] []"
    and "stp (run_state (Adding 0) 0 [] Idle [] []) (run_state (Sending 0) 1 [] Idle [] [])"
    and "stp (run_state (Sending 0) 1 [] Idle [] []) (run_state (Adding 1) 1 [0] Idle [] [])"
    and "stp (run_state (Adding 1) 1 [0] Idle [] [])
             (run_state (Adding 1) 1 [] (Running 0 DownloadState) [] [])"
    and "stp (run_state (Adding 1) 1 [] (Running 0 DownloadState) [] [])
             (run_state (Adding 1) 1 []
                (Running 0 (Return (Some (External ''NoSuchKey'')))) [''Download''] [])"
    and "stp (run_state (Adding 1) 1 []
                (Running 0 (Return (Some (External ''NoSuchKey'')))) [''Download''] [])
             (run_state (Adding 1) 1 [] (Finishing 0) [''Download'']
                [(0, 0, Error_migrating ''ws'' (External ''NoSuchKey''))])"
    and "stp (run_state (Adding 1) 1 [] (Finishing 0) [''Download'']
                [(0, 0, Error_migrating ''ws'' (External ''NoSuchKey''))])
             (run_state (Adding 1) 0 [] Idle [''Download'']
                [(0, 0, Error_migrating ''ws'' (External ''NoSuchKey''))])"
    and "stp (run_state (Adding 1) 0 [] Idle [''Download'']
                [(0, 0, Error_migrating ''ws'' (External ''NoSuchKey''))])
             (run_state Waiting 0 [] Idle [''Download'']
                [(0, 0, Error_migrating ''ws'' (External ''NoSuchKey''))])"
    and "stp (run_state Waiting 0 [] Idle [''Download'']
                [(0, 0, Error_migrating ''ws'' (External ''NoSuchKey''))])
             failed_run_end"
proof -
  have idle: "(replicate workers Idle)[0 := Idle] = replicate workers Idle"
    by (simp add: list_update_same_conv workers_pos)
  show "init [sample_task] [] = run_state (Adding 0) 0 [] Idle [] []"
    by (simp add: init_def run_state_def idle)
  show "stp (run_state (Adding 0) 0 [] Idle [] []) (run_state (Sending 0) 1 [] Idle [] [])"
    unfolding stp_def using step.main_add [of "run_state (Adding 0) 0 [] Idle [] []" 0]
    by (simp add: run_state_def)
  show "stp (run_state (Sending 0) 1 [] Idle [] []) (run_state (Adding 1) 1 [0] Idle [] [])"
    unfolding stp_def using step.main_send [of "run_state (Sending 0) 1 [] Idle [] []" 0]
    by (simp add: run_state_def queue_capacity_def)
  show "stp (run_state (Adding 1) 1 [0] Idle [] [])
             (run_state (Adding 1) 1 [] (Running 0 DownloadState) [] [])"
    unfolding stp_def
    using step.worker_receive [of 0 "run_state (Adding 1) 1 [0] Idle [] []" 0 "[]"] workers_pos
    by (simp add: run_state_def)
  show "stp (run_state (Adding 1) 1 [] (Running 0 DownloadState) [] [])
             (run_state (Adding 1) 1 []
                (Running 0 (Return (Some (External ''NoSuchKey'')))) [''Download''] [])"
    unfolding stp_def
    using step.worker_stage [of 0 "run_state (Adding 1) 1 [] (Running 0 DownloadState) [] []"
        0 DownloadState WithBackend sample_migrator failing_services] workers_pos failing_download
    by (simp add: run_state_def)
  show "stp (run_state (Adding 1) 1 []
                (Running 0 (Return (Some (External ''NoSuchKey'')))) [''Download''] [])
             (run_state (Adding 1) 1 [] (Finishing 0) [''Download'']
                [(0, 0, Error_migrating ''ws'' (External ''NoSuchKey''))])"
    unfolding stp_def
    using step.worker_log [of 0 "run_state (Adding 1) 1 []
                (Running 0 (Return (Some (External ''NoSuchKey'')))) [''Download''] []"
        0 "Some (External ''NoSuchKey'')"] workers_pos
    by (simp add: run_state_def log_line_of_def sample_task_def)
  show "stp (run_state (Adding 1) 1 [] (Finishing 0) [''Download'']
                [(0, 0, Error_migrating ''ws'' (External ''NoSuchKey''))])
             (run_state (Adding 1) 0 [] Idle [''Download'']
                [(0, 0, Error_migrating ''ws'' (External ''NoSuchKey''))])"
    unfolding stp_def
    using step.worker_done [of 0 "run_state (Adding 1) 1 [] (Finishing 0) [''Download'']
                [(0, 0, Error_migrating ''ws'' (External ''NoSuchKey''))]" 0] workers_pos
    by (simp add: run_state_def)
  show "stp (run_state (Adding 1) 0 [] Idle [''Download'']
                [(0, 0, Error_migrating ''ws'' (External ''NoSuchKey''))])
             (run_state Waiting 0 [] Idle [''Download'']
                [(0, 0, Error_migrating ''ws'' (External ''NoSuchKey''))])"
    unfolding stp_def
    using step.main_wait [of "run_state (Adding 1) 0 [] Idle [''Download'']
                [(0, 0, Error_migrating ''ws'' (External ''NoSuchKey''))]" 1]
    by (simp add: run_state_def)
  show "stp (run_state Waiting 0 [] Idle [''Download'']
                [(0, 0, Error_migrating ''ws'' (External ''NoSuchKey''))])
             failed_run_end"
    unfolding stp_def failed_run_end_def
    using step.main_finish [of "run_state Waiting 0 [] Idle [''Download'']
                [(0, 0, Error_migrating ''ws'' (External ''NoSuchKey''))]"]
    by (simp add: run_state_def)
qed

lemma failed_run_stage_reachable:
  "reachable WithBackend sample_migrator failing_services [sample_task] []
     (run_state (Adding 1) 1 [] (Running 0 DownloadState) [] [])"
proof -
  note s = failed_run_steps
  have "reachable WithBackend sample_migrator failing_services [sample_task] []
          (run_state (Adding 0) 0 [] Idle [] [])"
    using reachable.reach_init [of WithBackend sample_migrator failing_services "[sample_task]" "[]"]
    unfolding s(1) .
  then show ?thesis
    by (intro reachable.reach_step [OF _ s(4)] reachable.reach_step [OF _ s(3)]
        reachable.reach_step [OF _ s(2)])
qed

lemma failed_run_tail:
  "(step WithBackend sample_migrator failing_services)\<^sup>*\<^sup>*
     (run_state (Adding 1) 1 [] (Running 0 (Return (Some (External ''NoSuchKey''))))
        [''Download''] [])
     failed_run_end"
proof -
  note s = failed_run_steps
  show ?thesis
    by (meson s(6) s(7) s(8) s(9) converse_rtranclp_into_rtranclp rtranclp.rtrancl_refl)
qed

lemma failed_run_reachable:
  "reachable WithBackend sample_migrator failing_services [sample_task] [] failed_run_end"
proof -
  have "reachable WithBackend sample_migrator failing_services [sample_task] []
          (run_state (Adding 1) 1 [] (Running 0 (Return (Some (External ''NoSuchKey''))))
             [''Download''] [])"
    using failed_run_stage_reachable failed_run_steps(5) by (rule reachable.reach_step)
  with failed_run_tail show ?thesis by (rule reachable_rtranclp)
qed

section \<open>Every run completes\<close>

lemma stage_step_rank:
  assumes "\<forall>err. st \<noteq> Return err" and "stage_step v m sv st t w = ((st', t'), w')"
  shows "stage_rank st' < stage_rank st"
proof (cases st)
  case DownloadState
  obtain err t1 w1 where d: "downloadState (version_key v) sv t w = ((err, t1), w1)"
    by (metis surj_pair)
  with assms(2) DownloadState have "st' = Return err \<or> st' = CreateWorkspace"
    by (cases err) auto
  then show ?thesis using DownloadState by (auto simp: stage_rank_def)
next
  case CreateWorkspace
  obtain res w1 where d: "createWorkspace m sv t w = (res, w1)" by (metis surj_pair)
  with assms(2) CreateWorkspace have "(\<exists>err. st' = Return err) \<or> (\<exists>ws. st' = UploadState ws)"
    by (cases res) auto
  then show ?thesis using CreateWorkspace by (auto simp: stage_rank_def)
next
  case (UploadState ws)
  obtain err w1 where d: "uploadState sv t ws w = (err, w1)" by (metis surj_pair)
  with assms(2) UploadState have "(\<exists>err. st' = Return err) \<or> st' = UpdateBackend"
    by (cases err; cases v) auto
  then show ?thesis using UploadState by (auto simp: stage_rank_def)
next
  case UpdateBackend
  obtain err w1 where d: "updateBackend m sv t w = (err, w1)" by (metis surj_pair)
  with assms(2) UpdateBackend have "st' = Return err" by auto
  then show ?thesis using UpdateBackend by (auto simp: stage_rank_def)
next
  case (Return err)
  then show ?thesis using assms(1) by simp
qed

lemma wrank_update:
  assumes "k < length ws"
  shows "sum_list (map wrank (ws[k := x])) + wrank (ws ! k) = sum_list (map wrank ws) + wrank x"
  using assms by (rule sum_list_map_update)

lemma step_decreases:
  assumes "inv N s" and "step v m sv s s'"
  shows "remaining N s' < remaining N s"
  using assms(2)
proof (cases rule: step.cases)
  case (main_add i)
  then show ?thesis by (simp add: remaining_def mrank_def)
next
  case (main_send i)
  then have "i < N" using assms(1) by (simp add: inv_def pc_ok_def)
  then have "9 * (N - (i + 1)) + 9 = 9 * (N - i)" by simp
  then show ?thesis using main_send by (simp add: remaining_def mrank_def)
next
  case (main_wait i)
  then show ?thesis by (simp add: remaining_def mrank_def)
next
  case main_finish
  then show ?thesis by (simp add: remaining_def mrank_def)
next
  case (worker_receive k i rest)
  from wrank_update [OF worker_receive(2), of "Running i DownloadState"] worker_receive(3)
  have "sum_list (map wrank ((wstates s)[k := Running i DownloadState])) + 1
          = sum_list (map wrank (wstates s)) + 7"
    by (simp add: wrank_def stage_rank_def)
  then show ?thesis using worker_receive(1,4) by (simp add: remaining_def)
next
  case (worker_exit k)
  from wrank_update [OF worker_exit(2), of Exited] worker_exit(3)
  have "sum_list (map wrank ((wstates s)[k := Exited])) + 1 = sum_list (map wrank (wstates s))"
    by (simp add: wrank_def)
  then show ?thesis using worker_exit(1) by (simp add: remaining_def)
next
  case (worker_stage k i st st' task' w')
  have "stage_rank st' < stage_rank st"
    using worker_stage(4,6) by (rule stage_step_rank)
  moreover from wrank_update [OF worker_stage(2), of "Running i st'"] worker_stage(3)
  have "sum_list (map wrank ((wstates s)[k := Running i st'])) + (2 + stage_rank st)
          = sum_list (map wrank (wstates s)) + (2 + stage_rank st')"
    by (simp add: wrank_def)
  ultimately show ?thesis using worker_stage(1) by (simp add: remaining_def)
next
  case (worker_log k i err)
  from wrank_update [OF worker_log(2), of "Finishing i"] worker_log(3)
  have "sum_list (map wrank ((wstates s)[k := Finishing i])) + 3
          = sum_list (map wrank (wstates s)) + 2"
    by (simp add: wrank_def stage_rank_def)
  then show ?thesis using worker_log(1) by (simp add: remaining_def)
next
  case (worker_done k i)
  from wrank_update [OF worker_done(2), of Idle] worker_done(3)
  have "sum_list (map wrank ((wstates s)[k := Idle])) + 2
          = sum_list (map wrank (wstates s)) + 1"
    by (simp add: wrank_def)
  then show ?thesis using worker_done(1) by (simp add: remaining_def)
qed

lemma running_in_unlogged:
  "k < length ws \<Longrightarrow> ws ! k = Running i st \<Longrightarrow> i \<in># sum_list (map unlogged ws)"
proof (induction ws arbitrary: k)
  case Nil
  then show ?case by simp
next
  case (Cons a ws)
  show ?case
  proof (cases k)
    case 0
    then show ?thesis using Cons.prems by (simp add: unlogged_def)
  next
    case (Suc j)
    then show ?thesis using Cons.prems Cons.IH [of j] by simp
  qed
qed

lemma running_task_in_range:
  assumes "inv N s" and "k < length (wstates s)" and "wstates s ! k = Running i st"
  shows "i < length (task_heap s)"
proof -
  have "i \<in># sum_list (map unlogged (wstates s))"
    using assms(2,3) by (rule running_in_unlogged)
  then have "i \<in># mset (queue s) + sum_list (map unlogged (wstates s))
                    + mset (map task_of (logged s))"
    by simp
  moreover have "mset (queue s) + sum_list (map unlogged (wstates s))
                    + mset (map task_of (logged s)) = mset [0..<sent N (pc s)]"
    using assms(1) by (simp add: inv_def)
  ultimately have "i \<in># mset [0..<sent N (pc s)]" by (simp only:)
  then have "i < sent N (pc s)" by simp
  moreover have "sent N (pc s) \<le> N"
    using assms(1) by (cases "pc s") (simp_all add: inv_def pc_ok_def sent_def)
  ultimately show ?thesis using assms(1) by (simp add: inv_def)
qed

lemma all_idle_not_busy:
  assumes "\<forall>k<length ws. ws ! k = Idle"
  shows "sum_list (map busy ws) = 0"
proof -
  have "\<forall>x \<in> set ws. x = Idle" using assms by (auto simp: in_set_conv_nth)
  then show ?thesis by (induction ws) (auto simp: busy_def)
qed

lemma progress:
  assumes i: "inv N s" and nf: "pc s \<noteq> Finished"
  shows "\<exists>s'. step v m sv s s'"
proof (cases "\<forall>k<length (wstates s). wstates s ! k = Idle")
  case False
  then obtain k where k: "k < length (wstates s)" "wstates s ! k \<noteq> Idle" by blast
  have "wstates s ! k \<in> set (wstates s)" using k(1) by simp
  then have ne: "wstates s ! k \<noteq> Exited" using i by (auto simp: inv_def)
  show ?thesis
  proof (cases "wstates s ! k")
    case (Running j st)
    have j: "j < length (task_heap s)" using i k(1) Running by (rule running_task_in_range)
    show ?thesis
    proof (cases "\<exists>err. st = Return err")
      case True
      then obtain err where "st = Return err" by blast
      then show ?thesis using step.worker_log [OF k(1) _ j, of err v m sv] Running by blast
    next
      case False
      obtain st' task' w' where
        "stage_step v m sv st (task_heap s ! j) (world s) = ((st', task'), w')"
        by (metis surj_pair)
      then show ?thesis using step.worker_stage [OF k(1) Running _ j] False by blast
    qed
  next
    case (Finishing j)
    then show ?thesis using step.worker_done [OF k(1)] by blast
  qed (use k(2) ne in simp_all)
next
  case True
  have w0: "0 < length (wstates s)" using i by (simp add: inv_def workers_def)
  show ?thesis
  proof (cases "queue s")
    case (Cons j rest)
    then show ?thesis using step.worker_receive [OF w0 _ Cons] True w0 by blast
  next
    case Nil
    show ?thesis
    proof (cases "pc s")
      case (Adding j)
      then have "j \<le> N" and len: "length (task_heap s) = N"
        using i by (simp_all add: inv_def pc_ok_def)
      then consider "j < length (task_heap s)" | "j = length (task_heap s)" by linarith
      then show ?thesis
      proof cases
        case 1
        then show ?thesis using step.main_add [OF Adding] by blast
      next
        case 2
        then show ?thesis using step.main_wait [OF Adding] by blast
      qed
    next
      case (Sending j)
      have "length (queue s) < queue_capacity" using Nil by (simp add: queue_capacity_def)
      then show ?thesis using step.main_send [OF Sending] by blast
    next
      case Waiting
      have "sum_list (map busy (wstates s)) = 0" using True by (rule all_idle_not_busy)
      then have "wg s = 0" using i Nil Waiting by (simp add: inv_def sending_def)
      then show ?thesis using step.main_finish [OF Waiting] by blast
    next
      case Finished
      then show ?thesis using nf by simp
    qed
  qed
qed

section \<open>Errors of a stage\<close>




lemma run_completes_from:
  assumes "reachable v m sv ts w s"
  shows "\<exists>s'. (step v m sv)\<^sup>*\<^sup>* s s' \<and> pc s' = Finished"
  using assms
proof (induction "remaining (length ts) s" arbitrary: s rule: less_induct)
  case less
  show ?case
  proof (cases "pc s = Finished")
    case True
    then show ?thesis by blast
  next
    case False
    have i: "inv (length ts) s" using less.prems by (rule reachable_inv)
    obtain s1 where s1: "step v m sv s s1" using progress [OF i False] by blast
    have "remaining (length ts) s1 < remaining (length ts) s" using i s1 by (rule step_decreases)
    moreover have "reachable v m sv ts w s1" using less.prems s1 by (rule reachable.reach_step)
    ultimately obtain s' where "(step v m sv)\<^sup>*\<^sup>* s1 s'" "pc s' = Finished"
      using less.hyps by blast
    then show ?thesis using s1 by (meson converse_rtranclp_into_rtranclp)
  qed
qed




section \<open>The stages of every task\<close>
















section \<open>A run of two tasks\<close>














chapter \<open>The claims\<close>

section \<open>C1: state that does not parse\<close>

text \<open>
  Claim C1. The claim says that a task whose state bytes fail to parse fails the
  validation of the required fields and never reaches the creation of the workspace.
  The code fails it: when \<open>json.Unmarshal\<close> returns an error, \<open>downloadState\<close>
  returns \<open>nil\<close> at once, the check of \<open>Lineage\<close> and \<open>TerraformVersion\<close> is skipped,
  and the worker goes on to \<open>createWorkspace\<close> with an empty version. Both variants do
  so. (For bytes that parse and leave one of the two fields empty the check is made and
  the task stops, see \<open>incomplete_metadata_stops\<close>.)
\<close>

theorem unparseable_state_reaches_creation:
  "json_parse (sample_services (Inr ''not json'')) ''not json'' = Inl (External ''invalid character'') \<and>
   downloadState (version_key WithBackend) (sample_services (Inr ''not json'')) sample_task []
     = ((None, sample_task\<lparr>state := ''not json''\<rparr>), [''Download'']) \<and>
   downloadState (version_key Simple) (sample_services (Inr ''not json'')) sample_task []
     = ((None, sample_task\<lparr>state := ''not json''\<rparr>), [''Download'']) \<and>
   stage_step WithBackend sample_migrator (sample_services (Inr ''not json'')) DownloadState
       sample_task []
     = ((CreateWorkspace, sample_task\<lparr>state := ''not json''\<rparr>), [''Download'']) \<and>
   stage_step WithBackend sample_migrator (sample_services (Inr ''not json'')) CreateWorkspace
       (sample_task\<lparr>state := ''not json''\<rparr>) [''Download'']
     = ((UploadState ''ws-1'', sample_task\<lparr>state := ''not json''\<rparr>),
        [''Download'', ''Workspaces.Create''])"
proof -
  have p: "json_parse (sample_services (Inr ''not json'')) ''not json'' = Inl (External ''invalid character'')"
    by (simp add: sample_services_def sample_parse_def sample_state_def)
  have d: "s3_Download (sample_services (Inr ''not json'')) (bucket sample_task) (key sample_task) []
             = (Inr ''not json'', [''Download''])"
    by (simp add: sample_services_def)
  note ds = downloadState_parse_error [OF d p]
  have c: "createWorkspace sample_migrator (sample_services (Inr ''not json''))
             (sample_task\<lparr>state := ''not json''\<rparr>) [''Download'']
           = (Inr ''ws-1'', [''Download'', ''Workspaces.Create''])"
    by (simp add: createWorkspace_def sample_services_def)
  show ?thesis using p ds c by simp
qed

section \<open>C2: text without the keyword\<close>

text \<open>
  Claim C2. The claim says that a text in which the keyword never occurs is reported as
  not found. The code fails it: once fewer than ten bytes remain, the guard
  \<open>pos+9 < len(content)\<close> is false, the comparison with the keyword is not made, and
  the current offset becomes the start of the block. In \<open>no_block_text\<close> the keyword
  occurs nowhere, yet the locator returns \<open>(12, 20)\<close> and the rewrite replaces the end
  of the \<open>variable\<close> block by a backend block.
\<close>

theorem no_block_text_located:
  "occurrences no_block_text = [] \<and> findTerraformBlock no_block_text = (12, 20) \<and>
   rewrite ''h'' ''o'' ''w'' no_block_text =
     Some (''variable \"re'' @ Sprintf backendConfig [''h'', ''o'', ''w''] @ [LF])"
  by code_simp

section \<open>C3: one balanced block\<close>

text \<open>
  Claim C3 as stated fails: the locator starts at the first occurrence of the keyword as
  a substring, wherever it is. \<open>nested_keyword_text\<close> has exactly one balanced top-level
  occurrence of the keyword, at offset 43: the text before it is balanced, and it is
  followed by a header without braces and a balanced block that ends at offset 56. The
  keyword also occurs at offset 30, in a string inside the \<open>provider\<close> block, at depth 1.
  The locator returns \<open>(30, 54)\<close>: the span starts inside the \<open>provider\<close> block, ends
  just after the opening brace of the \<open>terraform\<close> block, and is not balanced.
\<close>

theorem nested_occurrence_located:
  "nested_keyword_text =
     take 43 nested_keyword_text @ ''terraform'' @ '' '' @ [CHR ''{''] @ [LF] @ [CHR ''}''] @ [LF] \<and>
   balanced (take 43 nested_keyword_text) \<and> balanced [LF] \<and>
   occurrences nested_keyword_text = [30, 43] \<and>
   depth (take 30 nested_keyword_text) = 1 \<and> depth (take 43 nested_keyword_text) = 0 \<and>
   findTerraformBlock nested_keyword_text = (30, 54) \<and>
   findTerraformBlock nested_keyword_text \<noteq> (43, 56) \<and>
   slice nested_keyword_text 30 54 =
     ''terraform\"'' @ [LF] @ ''}'' @ [LF] @ ''terraform {'' \<and>
   \<not> balanced (slice nested_keyword_text 30 54)"
  by code_simp

text \<open>
  Claim C3, as amended. Let the text be \<open>pre\<close>, the keyword, a header without braces, an
  opening brace, a balanced body, a closing brace and \<open>post\<close>, and let the keyword occur
  at no offset before this one, neither at top level nor nested nor inside a string;
  it may occur again later. Then the locator returns the half-open span that starts at the
  keyword's first character and ends just after that closing brace. The byte before the
  end is \<open>}\<close>; the brace depth of the span is zero there and positive at every offset
  between the opening brace and the end; and the span is balanced.
\<close>

theorem locate_balanced_block:
  assumes content: "content = pre @ ''terraform'' @ hdr @ [CHR ''{''] @ body @ [CHR ''}''] @ post"
    and first: "\<forall>q<length pre. \<not> occurs_at content q"
    and hdr: "filter brace hdr = []"
    and body: "balanced body"
  shows "findTerraformBlock content =
           (int (length pre), int (length pre + 9 + length hdr + 1 + length body + 1)) \<and>
         slice content (length pre) (length pre + 9) = ''terraform'' \<and>
         content ! (length pre + 9 + length hdr + 1 + length body) = CHR ''}'' \<and>
         depth (slice content (length pre) (length pre + 9 + length hdr + 1 + length body + 1)) = 0 \<and>
         (\<forall>j. length pre + 9 + length hdr < j
               \<and> j < length pre + 9 + length hdr + 1 + length body + 1
               \<longrightarrow> 0 < depth (slice content (length pre) j)) \<and>
         balanced (slice content (length pre) (length pre + 9 + length hdr + 1 + length body + 1))"
proof -
  define kw where "kw = ''terraform''"
  have nb: "filter brace kw = []" by (simp add: kw_def brace_def)
  have c: "content = pre @ kw @ hdr @ [CHR ''{''] @ body @ [CHR ''}''] @ post"
    unfolding kw_def by (rule content)
  note g = locate_block_general [OF c kw_def first hdr body]
  note d = span_depth [OF nb hdr body]
  have k9: "slice content (length pre) (length pre + 9) = ''terraform''"
    using g(2) unfolding kw_def .
  have open_inside: "\<forall>j. length pre + 9 + length hdr < j
               \<and> j < length pre + 9 + length hdr + 1 + length body + 1
               \<longrightarrow> 0 < depth (slice content (length pre) j)"
  proof (intro allI impI)
    fix j
    assume "length pre + 9 + length hdr < j
              \<and> j < length pre + 9 + length hdr + 1 + length body + 1"
    with g(5) have e: "slice content (length pre) j
        = kw @ hdr @ [CHR ''{''] @ take (j - (length pre + 9 + length hdr + 1)) body"
      by blast
    show "0 < depth (slice content (length pre) j)" unfolding e by (rule d(2))
  qed
  show ?thesis
    unfolding g(4)
    by (intro conjI) (rule g(1) k9 g(3) d(1) open_inside [unfolded g(4)] d(3))+
qed

theorem locate_balanced_block_witness:
  "state_key_text =
     (''# main'' @ [LF]) @ ''terraform'' @ '' '' @ [CHR ''{'']
       @ ([LF] @ ''  backend \"s3\" {'' @ [LF] @ ''    key = \"terraform.tfstate\"'' @ [LF]
          @ ''  }'' @ [LF])
       @ [CHR ''}''] @ [LF] \<and>
   occurrences state_key_text = [7, 47] \<and>
   balanced ([LF] @ ''  backend \"s3\" {'' @ [LF] @ ''    key = \"terraform.tfstate\"'' @ [LF]
             @ ''  }'' @ [LF]) \<and>
   findTerraformBlock state_key_text = (7, 71) \<and>
   state_key_text ! 70 = CHR ''}'' \<and>
   0 < depth (slice state_key_text 7 48) \<and>
   balanced (slice state_key_text 7 71)"
proof -
  let ?body = "[LF] @ ''  backend \"s3\" {'' @ [LF] @ ''    key = \"terraform.tfstate\"'' @ [LF]
                 @ ''  }'' @ [LF]"
  have h1: "state_key_text =
     (''# main'' @ [LF]) @ ''terraform'' @ '' '' @ [CHR ''{''] @ ?body @ [CHR ''}''] @ [LF]"
    by (simp add: state_key_text_def)
  have l: "length (''# main'' @ [LF]) = 7" "length '' '' = 1" "length ?body = 52"
    by simp_all
  have o: "occurrences state_key_text = [7, 47]" by code_simp
  have h2: "\<forall>q<length (''# main'' @ [LF]). \<not> occurs_at state_key_text q"
  proof (intro allI impI)
    fix q assume "q < length (''# main'' @ [LF])"
    then have "q \<notin> set (occurrences state_key_text)" unfolding o by auto
    then show "\<not> occurs_at state_key_text q" by (simp add: occurs_at_occurrences)
  qed
  have h3: "filter brace '' '' = []" by (simp add: brace_def)
  have h4: "balanced ?body" by code_simp
  have j: "7 + 9 + 1 < (48::nat) \<and> (48::nat) < 7 + 9 + 1 + 1 + 52 + 1" by simp
  note t = locate_balanced_block [OF h1 h2 h3 h4, unfolded l]
  from t j have "0 < depth (slice state_key_text 7 48)" by blast
  moreover from t have "findTerraformBlock state_key_text = (7, 71)"
    and "state_key_text ! 70 = CHR ''}''"
    and "balanced (slice state_key_text 7 71)"
    by simp_all
  ultimately have "findTerraformBlock state_key_text = (7, 71)"
    and "state_key_text ! 70 = CHR ''}''"
    and "0 < depth (slice state_key_text 7 48)"
    and "balanced (slice state_key_text 7 71)"
    by simp_all
  then show ?thesis using h1 o h4 by simp
qed

section \<open>C4: the concrete scenario\<close>

text \<open>
  Claim C4. On the scenario text the located span is \<open>(4, 37)\<close>: it starts at the
  \<open>t\<close> of \<open>terraform\<close> and ends just after the closing brace that matches the
  block's opening brace. Rewriting with hostname \<open>h\<close>, organization \<open>o\<close> and
  workspace \<open>w\<close> yields \<open>foo\<close> and a newline, the instantiated template, then a
  newline and \<open>bar\<close>.
\<close>

theorem scenario_rewrite:
  "findTerraformBlock scenario_text = (4, 37) \<and>
   slice scenario_text 4 37 =
     ''terraform {'' @ [LF] @ '' backend \"local\" {}'' @ [LF] @ ''}'' \<and>
   scenario_text ! 4 = CHR ''t'' \<and> scenario_text ! 36 = CHR ''}'' \<and>
   rewrite ''h'' ''o'' ''w'' scenario_text =
     Some (''foo'' @ [LF] @ Sprintf backendConfig [''h'', ''o'', ''w''] @ [LF] @ ''bar'') \<and>
   Sprintf backendConfig [''h'', ''o'', ''w''] =
     ''terraform {'' @ [LF] @
     ''  backend \"remote\" {'' @ [LF] @
     ''    hostname     = \"h\"'' @ [LF] @
     ''    organization = \"o\"'' @ [LF] @
     [LF] @
     ''    workspaces {'' @ [LF] @
     ''      name = \"w\"'' @ [LF] @
     ''    }'' @ [LF] @
     ''  }'' @ [LF] @
     ''}''"
  by code_simp

section \<open>C5: completion of the pipeline\<close>

text \<open>
  Claim C5 as stated fails in its last part, which says that the run is not complete
  before every worker has exited. In the run of one task whose download fails, \<open>main\<close>
  has returned from \<open>wg.Wait()\<close> and the line of the task is logged, while worker 0 is at
  its receive: it has not exited.
\<close>

theorem workers_do_not_exit:
  "reachable WithBackend sample_migrator failing_services [sample_task] [] failed_run_end \<and>
   pc failed_run_end = Finished \<and>
   length (logged failed_run_end) = 1 \<and>
   wstates failed_run_end ! 0 = Idle \<and>
   wstates failed_run_end ! 0 \<noteq> Exited"
  using failed_run_reachable by (simp add: failed_run_end_def run_state_def workers_def)

text \<open>
  Claim C5, as amended. For \<open>N\<close> tasks and the ten workers, a run can be completed from
  every state it reaches. When \<open>main\<close> has returned from \<open>wg.Wait()\<close>, exactly \<open>N\<close> lines
  are logged, one for every task, each by one of the workers; so the wait does not return
  before all \<open>N\<close> outcomes exist. At that moment the channel is empty and still open, the
  counter of the wait group is zero, and every worker is idle at its receive: no worker
  exits.
\<close>

theorem pipeline_completion:
  assumes "reachable v m sv ts w s"
  shows "(\<exists>s'. (step v m sv)\<^sup>*\<^sup>* s s' \<and> pc s' = Finished) \<and>
         (pc s = Finished \<longrightarrow>
            length (logged s) = length ts \<and>
            (\<forall>i<length ts. \<exists>!e. e \<in> set (logged s) \<and> task_of e = i) \<and>
            (\<forall>e \<in> set (logged s). fst e < workers \<and> task_of e < length ts) \<and>
            queue s = [] \<and> wg s = 0 \<and> \<not> closed s \<and>
            length (wstates s) = workers \<and>
            (\<forall>k<workers. wstates s ! k = Idle))"
  using run_completes_from [OF assms] pipeline_completion_aux [OF assms] by blast

theorem pipeline_completion_witness:
  "reachable WithBackend sample_migrator failing_services [sample_task] [] failed_run_end \<and>
   pc failed_run_end = Finished \<and>
   length (logged failed_run_end) = 1 \<and>
   logged failed_run_end = [(0, 0, Error_migrating ''ws'' (External ''NoSuchKey''))] \<and>
   wstates failed_run_end ! 3 = Idle"
proof -
  have f: "pc failed_run_end = Finished" by (simp add: failed_run_end_def run_state_def)
  have k: "(3::nat) < workers" by (simp add: workers_def)
  from pipeline_completion [OF failed_run_reachable] f k
  have "length (logged failed_run_end) = length [sample_task]"
    and "wstates failed_run_end ! 3 = Idle"
    by blast+
  then show ?thesis using failed_run_reachable f
    by (simp add: failed_run_end_def run_state_def)
qed

section \<open>C6: an error of a stage\<close>



section \<open>C7: a malformed record\<close>

text \<open>
  Claim C7. The tasks handed to the pipeline are exactly one task per input record, all
  built before the pipeline starts with an empty queue, an empty log and the world
  untouched; and then no record was rejected. If a record is rejected (its field count
  is wrong, or the reader reports an error for it), the run has one outcome: exit status
  1, no task executed, and the world as it was.
\<close>

theorem malformed_record_stops_the_run:
  "(main_prelude v su = Inr (m, ts) \<longrightarrow>
      \<not> list_ex (rejected v) (records su) \<and>
      ts = map (new_task v) (map projr (records su)) \<and>
      task_heap (init ts w) = ts \<and> queue (init ts w) = [] \<and> logged (init ts w) = [] \<and>
      world (init ts w) = w) \<and>
   (list_ex (rejected v) (records su) \<longrightarrow>
      main_prelude v su = Inl 1 \<and>
      main_run v sv su w (1, [], w) \<and>
      (\<forall>out. main_run v sv su w out \<longrightarrow> out = (1, [], w)))"
proof (intro conjI impI)
  assume a: "main_prelude v su = Inr (m, ts)"
  show "\<not> list_ex (rejected v) (records su)" using a by (rule main_prelude_accepted)
  show "ts = map (new_task v) (map projr (records su))" using a by (rule main_prelude_accepted)
  show "task_heap (init ts w) = ts" "queue (init ts w) = []" "logged (init ts w) = []"
    "world (init ts w) = w"
    by (simp_all add: init_def)
next
  assume r: "list_ex (rejected v) (records su)"
  show p: "main_prelude v su = Inl 1" using r by (rule main_prelude_rejected)
  show "main_run v sv su w (1, [], w)" using p by (rule main_run.exit_early)
  show "\<forall>out. main_run v sv su w out \<longrightarrow> out = (1, [], w)"
  proof (intro allI impI)
    fix out assume "main_run v sv su w out"
    then show "out = (1, [], w)" using p by (cases rule: main_run.cases) simp_all
  qed
qed

theorem malformed_record_stops_the_run_witness:
  "list_ex (rejected WithBackend)
     (records (sample_startup
        [Inr [''b'', ''k'', ''p'', ''r'', ''master'', ''main.tf'', ''ws''], Inr [''b'', ''k'']])) \<and>
   main_prelude WithBackend
     (sample_startup
        [Inr [''b'', ''k'', ''p'', ''r'', ''master'', ''main.tf'', ''ws''], Inr [''b'', ''k'']])
     = Inl 1 \<and>
   main_run WithBackend (sample_services (Inr sample_state))
     (sample_startup
        [Inr [''b'', ''k'', ''p'', ''r'', ''master'', ''main.tf'', ''ws''], Inr [''b'', ''k'']])
     [] (1, [], []) \<and>
   main_prelude WithBackend
     (sample_startup [Inr [''b'', ''k'', ''p'', ''r'', ''master'', ''main.tf'', ''ws'']])
     = Inr (sample_migrator, [sample_task]) \<and>
   \<not> list_ex (rejected WithBackend)
     (records (sample_startup [Inr [''b'', ''k'', ''p'', ''r'', ''master'', ''main.tf'', ''ws'']]))"
proof -
  let ?bad = "sample_startup
        [Inr [''b'', ''k'', ''p'', ''r'', ''master'', ''main.tf'', ''ws''], Inr [''b'', ''k'']]"
  let ?good = "sample_startup [Inr [''b'', ''k'', ''p'', ''r'', ''master'', ''main.tf'', ''ws'']]"
  have r: "list_ex (rejected WithBackend) (records ?bad)"
    by (simp add: sample_startup_def rejected_simps field_count_def)
  have g: "main_prelude WithBackend ?good = Inr (sample_migrator, [sample_task])"
    by (simp add: main_prelude_def sample_startup_def field_count_def new_task_def
        sample_migrator_def sample_task_def bucketField_def keyField_def projectField_def
        repoField_def branchField_def configFileField_def workspaceField_def)
  note t1 = malformed_record_stops_the_run
    [of WithBackend ?bad sample_migrator "[sample_task]" "[]" "sample_services (Inr sample_state)"]
  note t2 = malformed_record_stops_the_run
    [of WithBackend ?good sample_migrator "[sample_task]" "[]" "sample_services (Inr sample_state)"]
  from t1 r have "main_prelude WithBackend ?bad = Inl 1"
    and "main_run WithBackend (sample_services (Inr sample_state)) ?bad [] (1, [], [])"
    by blast+
  moreover from t2 g have "\<not> list_ex (rejected WithBackend) (records ?good)" by blast
  ultimately show ?thesis using r g by blast
qed

section \<open>C8: rewriting twice\<close>

text \<open>
  Claim C8 as stated fails: the organization is a command-line argument and may be any
  string. With the organization \<open>}}\<close> the block spliced in by the first rewrite closes
  at that name, so the second rewrite replaces only the front part of the block and the
  two results differ. A block is located in \<open>scenario_text\<close>, at \<open>(4, 37)\<close>.
\<close>

theorem rewrite_twice_differs:
  "findTerraformBlock scenario_text = (4, 37) \<and>
   Option.bind (rewrite ''h'' ''}}'' ''w'' scenario_text) (rewrite ''h'' ''}}'' ''w'')
     \<noteq> rewrite ''h'' ''}}'' ''w'' scenario_text"
  by code_simp

text \<open>
  Claim C8, as amended. The claim holds for identifiers that contain no brace. For every
  text in which a block is located, and every hostname, organization and workspace name
  without \<open>{\<close> and \<open>}\<close>, rewriting the rewritten text again with the same three
  identifiers returns it unchanged: the second run locates exactly the block that the
  first run spliced in and replaces it by an identical one.
\<close>

theorem rewrite_idempotent:
  assumes hn: "filter brace hn = []" and org: "filter brace org = []"
    and ws: "filter brace ws = []"
    and rw: "rewrite hn org ws content = Some r"
  shows "rewrite hn org ws r = Some r"
proof -
  let ?blk = "Sprintf backendConfig [hn, org, ws]"
  obtain s e where se: "findTerraformBlock content = (s, e)" by (cases "findTerraformBlock content")
  with rw have ne: "s \<noteq> - 1" "e \<noteq> - 1"
    and r: "r = take (nat s) content @ ?blk @ drop (nat e) content"
    by (auto simp: rewrite_def slice_ends split: if_splits)
  obtain sn en where sn: "s = int sn" "e = int en" "sn < length content"
    and first: "\<forall>q. 0 \<le> q \<and> q < sn \<longrightarrow> \<not> occurs_at content q"
    using loop_search_result [of content 0 0 s e] se ne(1)
    by (auto simp: findTerraformBlock_def)
  let ?pre = "take sn content" and ?post = "drop en content"
  have r': "r = ?pre @ ?blk @ ?post" using r sn by simp
  obtain rest where blk: "?blk = ''terraform'' @ rest" using tfBlock_keyword by blast
  have r'': "r = ?pre @ ''terraform'' @ (rest @ ?post)" using r' blk by simp
  have len: "length ?pre = sn" using sn(3) by simp
  have occ: "occurs_at r sn" unfolding r'' using sn(3) by (intro occurs_at_splice) simp
  have nob: "\<forall>q<sn. \<not> occurs_at r q"
    unfolding r'' using first sn(3) by (intro no_occurrence_before_splice) simp_all
  have dr: "drop sn r = ?blk @ ?post" using r' len by simp
  define en' where "en' = sn + length ?blk"
  have "findTerraformBlock r = (int sn, int en')"
    using findTerraformBlock_first_occurrence [OF occ nob] tfBlock_closes [OF hn org ws, of ?post sn]
    unfolding dr en'_def by simp
  moreover have "take sn r = ?pre" using r' len by simp
  moreover have "drop en' r = ?post"
  proof -
    have "drop en' r = drop (length ?blk) (drop sn r)"
      by (simp add: add.commute en'_def)
    then show ?thesis unfolding dr by simp
  qed
  ultimately have "rewrite hn org ws r = Some (?pre @ ?blk @ ?post)"
    by (simp add: rewrite_def slice_ends)
  then show ?thesis using r' by simp
qed

theorem rewrite_idempotent_witness:
  "rewrite ''h'' ''o'' ''w'' scenario_text =
     Some (''foo'' @ [LF] @ Sprintf backendConfig [''h'', ''o'', ''w''] @ [LF] @ ''bar'') \<and>
   rewrite ''h'' ''o'' ''w''
       (''foo'' @ [LF] @ Sprintf backendConfig [''h'', ''o'', ''w''] @ [LF] @ ''bar'') =
     Some (''foo'' @ [LF] @ Sprintf backendConfig [''h'', ''o'', ''w''] @ [LF] @ ''bar'')"
proof -
  have b: "filter brace ''h'' = []" "filter brace ''o'' = []" "filter brace ''w'' = []"
    by (simp_all add: brace_def)
  have r: "rewrite ''h'' ''o'' ''w'' scenario_text =
     Some (''foo'' @ [LF] @ Sprintf backendConfig [''h'', ''o'', ''w''] @ [LF] @ ''bar'')"
    by code_simp
  show ?thesis using rewrite_idempotent [OF b r] r by simp
qed

section \<open>C9: the bytes outside the span\<close>

text \<open>
  Claim C9. Whenever a block span \<open>(start, end)\<close> is located, the offsets are in range
  (\<open>0 \<le> start < end \<le> len\<close>, so neither slice expression panics) and the rewrite
  returns the bytes before \<open>start\<close>, then the replacement block, then the bytes from
  \<open>end\<close> onward: the prefix of the result up to \<open>start\<close> and its suffix after the
  replacement block are the original bytes, unchanged.
\<close>

theorem rewrite_preserves_outside:
  assumes "findTerraformBlock content = (start, end)" and "\<not> (start = - 1 \<or> end = - 1)"
  shows "0 \<le> start \<and> start < end \<and> end \<le> int (length content) \<and>
    (\<exists>r. rewrite hn org ws content = Some r \<and>
      r = take (nat start) content @ Sprintf backendConfig [hn, org, ws]
            @ drop (nat end) content \<and>
      take (nat start) r = take (nat start) content \<and>
      drop (nat start + length (Sprintf backendConfig [hn, org, ws])) r
        = drop (nat end) content)"
proof -
  have b: "0 \<le> start \<and> start < end \<and> end \<le> int (length content)"
    using assms by (intro findTerraformBlock_bounds) simp_all
  have "rewrite hn org ws content =
      Some (take (nat start) content @ Sprintf backendConfig [hn, org, ws]
            @ drop (nat end) content)"
    using assms by (simp add: rewrite_def slice_def)
  moreover have "length (take (nat start) content) = nat start" using b by auto
  ultimately show ?thesis using b by simp
qed

theorem rewrite_preserves_outside_witness:
  "findTerraformBlock scenario_text = (4, 37) \<and>
   rewrite ''h'' ''o'' ''w'' scenario_text =
     Some (take 4 scenario_text @ Sprintf backendConfig [''h'', ''o'', ''w'']
           @ drop 37 scenario_text)"
proof -
  have h: "\<not> ((4::int) = - 1 \<or> (37::int) = - 1)" by simp
  show ?thesis
    using rewrite_preserves_outside [OF scenario_located h, of "''h''" "''o''" "''w''"]
      scenario_located by simp
qed

section \<open>C10: the two variants\<close>

text \<open>
  Claim C10. For a state document with the key \<open>terraform_version\<close> and without
  \<open>terraform-version\<close>, the variant that rewrites the backend reads the version
  \<open>0.11.8\<close> and its download stage succeeds, while the simple variant leaves the
  version empty and its download stage fails the check of the required fields: the two
  download stages are different functions.
\<close>

theorem version_key_variants_differ:
  "Unmarshal (version_key WithBackend) sample_parse sample_state
       \<lparr>Lineage = [], Serial = 0, TerraformVersion = []\<rparr>
     = (None, \<lparr>Lineage = ''L'', Serial = 1, TerraformVersion = ''0.11.8''\<rparr>) \<and>
   Unmarshal (version_key Simple) sample_parse sample_state
       \<lparr>Lineage = [], Serial = 0, TerraformVersion = []\<rparr>
     = (None, \<lparr>Lineage = ''L'', Serial = 1, TerraformVersion = []\<rparr>) \<and>
   fst (fst (downloadState (version_key WithBackend) (sample_services (Inr sample_state)) sample_task []))
     = None \<and>
   fst (fst (downloadState (version_key Simple) (sample_services (Inr sample_state)) sample_task []))
     = Some (IncompleteStateMetadata \<lparr>Lineage = ''L'', Serial = 1, TerraformVersion = []\<rparr>) \<and>
   (downloadState (version_key WithBackend)
      :: string list services \<Rightarrow> Task \<Rightarrow> string list \<Rightarrow> (error option \<times> Task) \<times> string list)
     \<noteq> downloadState (version_key Simple)"
proof -
  have a: "Unmarshal (version_key WithBackend) sample_parse sample_state
       \<lparr>Lineage = [], Serial = 0, TerraformVersion = []\<rparr>
     = (None, \<lparr>Lineage = ''L'', Serial = 1, TerraformVersion = ''0.11.8''\<rparr>)"
    by code_simp
  have b: "Unmarshal (version_key Simple) sample_parse sample_state
       \<lparr>Lineage = [], Serial = 0, TerraformVersion = []\<rparr>
     = (None, \<lparr>Lineage = ''L'', Serial = 1, TerraformVersion = []\<rparr>)"
    by code_simp
  have c: "fst (fst (downloadState (version_key WithBackend) (sample_services (Inr sample_state))
                       sample_task [])) = None"
    by code_simp
  have d: "fst (fst (downloadState (version_key Simple) (sample_services (Inr sample_state))
                       sample_task []))
             = Some (IncompleteStateMetadata \<lparr>Lineage = ''L'', Serial = 1, TerraformVersion = []\<rparr>)"
    by code_simp
  have "(downloadState (version_key WithBackend)
      :: string list services \<Rightarrow> Task \<Rightarrow> string list \<Rightarrow> (error option \<times> Task) \<times> string list)
     \<noteq> downloadState (version_key Simple)"
  proof
    assume "(downloadState (version_key WithBackend)
      :: string list services \<Rightarrow> Task \<Rightarrow> string list \<Rightarrow> (error option \<times> Task) \<times> string list)
      = downloadState (version_key Simple)"
    then have "fst (fst (downloadState (version_key WithBackend) (sample_services (Inr sample_state))
                       sample_task []))
      = fst (fst (downloadState (version_key Simple) (sample_services (Inr sample_state))
                       sample_task []))"
      by simp
    then show False unfolding c d by simp
  qed
  then show ?thesis using a b c d by blast
qed

end
